theory Spec2Isabelle
  imports Main "HOL-Library.Log_Nat" "HOL-Library.Multiset"
begin

section \<open>Values of the Go runtime that the two engines compute with\<close>

text \<open>
  The retention engine (\<^verbatim>\<open>RunRetention\<close>, \<^verbatim>\<open>processRepository\<close>) and the scan scheduler
  (\<^verbatim>\<open>checkSchedules\<close>, \<^verbatim>\<open>triggerPolicy\<close>, \<^verbatim>\<open>worker\<close>) are embedded as HOL functions and
  relations. An \<^verbatim>\<open>error\<close> is represented by its message. A \<^verbatim>\<open>time.Time\<close> is an instant,
  counted in nanoseconds from the zero \<^verbatim>\<open>Time\<close>; a \<^verbatim>\<open>time.Duration\<close> is a signed 64-bit
  count of nanoseconds, so arithmetic on durations wraps around and \<^verbatim>\<open>Time.Sub\<close> saturates,
  as the Go library documents. Go's \<^verbatim>\<open>int\<close> is taken to be 64 bits wide. Output written
  with \<^verbatim>\<open>log.Printf\<close> is not part of the model.
\<close>

type_synonym error = string
type_synonym time = int
type_synonym duration = int

definition IsZero :: "time \<Rightarrow> bool" where
  "IsZero t \<longleftrightarrow> t = 0"

definition After :: "time \<Rightarrow> time \<Rightarrow> bool" where
  "After t u \<longleftrightarrow> u < t"

definition Add :: "time \<Rightarrow> duration \<Rightarrow> time" where
  "Add t d = t + d"

definition maxDuration :: duration where
  "maxDuration = 9223372036854775807"

definition minDuration :: duration where
  "minDuration = - 9223372036854775808"

definition Sub :: "time \<Rightarrow> time \<Rightarrow> duration" where
  "Sub t u = (if t - u < minDuration then minDuration
              else if maxDuration < t - u then maxDuration else t - u)"

definition Hour :: duration where
  "Hour = 3600000000000"

text \<open>The value of a 64-bit two's complement integer after an operation that may overflow.\<close>

definition wrap64 :: "int \<Rightarrow> int" where
  "wrap64 x = (x + 9223372036854775808) mod 18446744073709551616 - 9223372036854775808"

text \<open>Go's integer \<^verbatim>\<open>/\<close> and \<^verbatim>\<open>%\<close> truncate towards zero.\<close>

definition quot :: "int \<Rightarrow> int \<Rightarrow> int" where
  "quot a b = (if (a < 0) = (b < 0) then \<bar>a\<bar> div \<bar>b\<bar> else - (\<bar>a\<bar> div \<bar>b\<bar>))"

definition rem :: "int \<Rightarrow> int \<Rightarrow> int" where
  "rem a b = a - b * quot a b"

subsection \<open>float64 arithmetic\<close>

text \<open>
  \<^verbatim>\<open>Duration.Hours\<close> returns a \<^verbatim>\<open>float64\<close>. A finite float64 is a rational number; every
  float64 operation returns the exact result rounded to the nearest number with a 53-bit
  significand, ties to the even significand. The numbers met here (hour counts of an int64
  duration and their quotients) are far from the subnormal and the overflow range, so the
  exponent is not bounded in the model.
\<close>

definition round_even :: "rat \<Rightarrow> int" where
  "round_even x = (let f = \<lfloor>x\<rfloor>; r = x - of_int f in
     if r < 1 / 2 then f else if 1 / 2 < r then f + 1 else if even f then f else f + 1)"

definition expo :: "rat \<Rightarrow> int" where
  "expo x = (let (a, b) = quotient_of \<bar>x\<bar>; k = bitlen a - bitlen b
             in if 2 powi k \<le> \<bar>x\<bar> then k else k - 1)"

definition float64 :: "rat \<Rightarrow> rat" where
  "float64 x = (if x = 0 then 0
     else of_int (round_even (x / 2 powi (expo x - 52))) * 2 powi (expo x - 52))"

text \<open>
  \<^verbatim>\<open>func (d Duration) Hours() float64 { hour := d / Hour; nsec := d % Hour;
  return float64(hour) + float64(nsec)/(60*60*1e9) }\<close>
\<close>

definition Hours :: "duration \<Rightarrow> rat" where
  "Hours d = (let hour = quot d Hour; nsec = rem d Hour
              in float64 (float64 (of_int hour) + float64 (float64 (of_int nsec) / 3600000000000)))"

text \<open>The conversion \<^verbatim>\<open>int(f)\<close> of a float64 discards the fraction.\<close>

definition float_to_int :: "rat \<Rightarrow> int" where
  "float_to_int x = (if 0 \<le> x then \<lfloor>x\<rfloor> else \<lceil>x\<rceil>)"

subsection \<open>Formatting with \<^verbatim>\<open>%d\<close>\<close>

definition digit :: "nat \<Rightarrow> char" where
  "digit n = ''0123456789'' ! (n mod 10)"

function decimal :: "nat \<Rightarrow> string" where
  "decimal n = (if n < 10 then [digit n] else decimal (n div 10) @ [digit n])"
  by pat_completeness auto
termination
  by (relation "measure id") auto

definition Sprintd :: "int \<Rightarrow> string" where
  "Sprintd n = (if n < 0 then CHR ''-'' # decimal (nat (- n)) else decimal (nat n))"

subsection \<open>Regular expressions\<close>

text \<open>
  The package \<^verbatim>\<open>regexp\<close> is a parameter: \<open>Compile\<close> returns an error or a compiled
  expression, \<open>MatchString\<close> matches one. A \<^verbatim>\<open>*regexp.Regexp\<close> variable that may be
  \<^verbatim>\<open>nil\<close> is an \<open>option\<close>. Both engines declare the variable \<^verbatim>\<open>nil\<close> and assign it only
  when the pattern is not empty; \<^verbatim>\<open>regexp.Compile\<close> returns \<^verbatim>\<open>nil\<close> with its error.
\<close>

record 're regexp =
  Compile :: "string \<Rightarrow> error + 're"
  MatchString :: "'re \<Rightarrow> string \<Rightarrow> bool"

section \<open>Data model\<close>

record RetentionPolicy =
  KeepLastCount :: int
  KeepDays :: int
  DryRun :: bool
  FilterRepos :: string
  ExcludeRepos :: string
  ExcludeTags :: string

record RetentionLog =
  Repository :: string
  Tag :: string
  Digest :: string
  Created :: time
  Action :: string
  Reason :: string

record imageInfo =
  Tag :: string
  Digest :: string
  Created :: time
  Protected :: bool

record tagDecision =
  img :: imageInfo
  keep :: bool
  reason :: string

text \<open>
  The registry client is a capability over the state \<open>'s\<close> of the registry: the four reads
  depend on the state, \<open>DeleteManifest\<close> changes it and may fail. The world of a run is the
  registry together with the \<open>DeleteManifest\<close> calls issued so far, as (repository, digest)
  pairs in the order of the calls.
\<close>

record 's Client =
  ListRepositories :: "'s \<Rightarrow> error + string list"
  ListTags :: "'s \<Rightarrow> string \<Rightarrow> error + string list"
  GetImageCreated :: "'s \<Rightarrow> string \<Rightarrow> string \<Rightarrow> error + time"
  GetDigestForTag :: "'s \<Rightarrow> string \<Rightarrow> string \<Rightarrow> error + string"
  DeleteManifest :: "'s \<Rightarrow> string \<Rightarrow> string \<Rightarrow> error option \<times> 's"

record 's world =
  registry :: 's
  deleteCalls :: "(string \<times> string) list"

definition callDeleteManifest ::
  "'s Client \<Rightarrow> string \<Rightarrow> string \<Rightarrow> 's world \<Rightarrow> error option \<times> 's world" where
  "callDeleteManifest client repoName digest w =
     (let (err, s) = DeleteManifest client (registry w) repoName digest
      in (err, \<lparr>registry = s, deleteCalls = deleteCalls w @ [(repoName, digest)]\<rparr>))"

section \<open>Retention engine\<close>

subsection \<open>Compiling the policy's patterns\<close>

definition compileOrNil :: "'re regexp \<Rightarrow> string \<Rightarrow> 're option" where
  "compileOrNil rx pattern =
     (if pattern \<noteq> [] then
        (case Compile rx pattern of Inl err \<Rightarrow> None | Inr re \<Rightarrow> Some re)
      else None)"

subsection \<open>Fetching the details of one tag\<close>

text \<open>
  The body of the goroutine started for each tag: \<open>None\<close> when the creation time or the
  digest cannot be fetched (the goroutine returns without appending).
\<close>

definition fetchDetails ::
  "'s Client \<Rightarrow> 're regexp \<Rightarrow> 're option \<Rightarrow> 's \<Rightarrow> string \<Rightarrow> string \<Rightarrow> imageInfo option" where
  "fetchDetails client rx excludeTagRe s repoName t =
     (let isProtected = (case excludeTagRe of None \<Rightarrow> False | Some re \<Rightarrow> MatchString rx re t)
      in case GetImageCreated client s repoName t of
           Inl err \<Rightarrow> None
         | Inr created \<Rightarrow>
             (case GetDigestForTag client s repoName t of
                Inl err \<Rightarrow> None
              | Inr digest \<Rightarrow>
                  Some \<lparr>imageInfo.Tag = t, imageInfo.Digest = digest,
                        imageInfo.Created = created, Protected = isProtected\<rparr>))"

text \<open>
  The goroutines append in the order in which they finish, and \<^verbatim>\<open>sort.Slice\<close> is not
  stable: the sorted slice is some arrangement of the fetched images in which no image is
  followed by one created after it.
\<close>

definition sortSlice :: "imageInfo list \<Rightarrow> imageInfo list \<Rightarrow> bool" where
  "sortSlice fetched images \<longleftrightarrow>
     mset images = mset fetched \<and>
     sorted_wrt (\<lambda>a b. \<not> After (imageInfo.Created b) (imageInfo.Created a)) images"

subsection \<open>Pass 1: the rules\<close>

definition days_of :: "duration \<Rightarrow> int" where
  "days_of age = float_to_int (float64 (Hours age / 24))"

definition ruleKeepLastCount :: "RetentionPolicy \<Rightarrow> nat \<Rightarrow> bool \<times> string \<Rightarrow> bool \<times> string" where
  "ruleKeepLastCount policy i st =
     (if KeepLastCount policy > 0 then
        (if int i < KeepLastCount policy
         then (True, ''within last '' @ Sprintd (KeepLastCount policy) @ '' images'')
         else st)
      else st)"

definition ruleKeepDays ::
  "RetentionPolicy \<Rightarrow> time \<Rightarrow> imageInfo \<Rightarrow> bool \<times> string \<Rightarrow> bool \<times> string" where
  "ruleKeepDays policy now im st =
     (if KeepDays policy > 0 then
        (let age = Sub now (imageInfo.Created im); days = days_of age
         in if days < KeepDays policy then
              (if fst st
               then (fst st, snd st @ '' AND newer than '' @ Sprintd (KeepDays policy) @ '' days'')
               else (True, ''newer than '' @ Sprintd (KeepDays policy) @ '' days''))
            else st)
      else st)"

definition ruleWhitelist :: "imageInfo \<Rightarrow> bool \<times> string \<Rightarrow> bool \<times> string" where
  "ruleWhitelist im st =
     (if Protected im then
        (True, if snd st = ''default keep'' then ''matches whitelist tag''
               else snd st @ '' AND matches whitelist'')
      else st)"

definition ruleNoPolicy :: "RetentionPolicy \<Rightarrow> bool \<times> string \<Rightarrow> bool \<times> string" where
  "ruleNoPolicy policy st =
     (if KeepLastCount policy \<le> 0 \<and> KeepDays policy \<le> 0 then (True, ''no policy set'') else st)"

text \<open>The body of the first loop, for the image at index \<open>i\<close> of the sorted slice.\<close>

definition evaluateRules :: "RetentionPolicy \<Rightarrow> time \<Rightarrow> nat \<Rightarrow> imageInfo \<Rightarrow> tagDecision" where
  "evaluateRules policy now i im =
     (let st = (False, ''default keep'');
          st = ruleKeepLastCount policy i st;
          st = ruleKeepDays policy now im st;
          st = ruleWhitelist im st;
          st = ruleNoPolicy policy st
      in \<lparr>img = im, keep = fst st, reason = snd st\<rparr>)"

text \<open>
  The first loop, with its two accumulators: the map \<^verbatim>\<open>keptDigests\<close> and the slice
  \<^verbatim>\<open>decisions\<close>. Reading a key that the map does not hold yields \<^verbatim>\<open>false\<close>.
\<close>

definition lookupBool :: "(string \<rightharpoonup> bool) \<Rightarrow> string \<Rightarrow> bool" where
  "lookupBool m k = (case m k of None \<Rightarrow> False | Some b \<Rightarrow> b)"

fun pass1 ::
  "RetentionPolicy \<Rightarrow> time \<Rightarrow> nat \<Rightarrow> imageInfo list \<Rightarrow> (string \<rightharpoonup> bool) \<Rightarrow> tagDecision list
   \<Rightarrow> (string \<rightharpoonup> bool) \<times> tagDecision list" where
  "pass1 policy now i [] keptDigests decisions = (keptDigests, decisions)"
| "pass1 policy now i (im # images) keptDigests decisions =
     (let d = evaluateRules policy now i im;
          keptDigests' = (if keep d then keptDigests(imageInfo.Digest im \<mapsto> True) else keptDigests)
      in pass1 policy now (Suc i) images keptDigests' (decisions @ [d]))"

subsection \<open>Pass 2: the actions\<close>

definition executeAction ::
  "'s Client \<Rightarrow> RetentionPolicy \<Rightarrow> string \<Rightarrow> (string \<rightharpoonup> bool) \<Rightarrow> tagDecision \<Rightarrow> 's world
   \<Rightarrow> RetentionLog \<times> 's world" where
  "executeAction client policy repoName keptDigests d w =
     (let (action, reason, w') =
        (if \<not> keep d then
           (if lookupBool keptDigests (imageInfo.Digest (img d))
            then (''kept'', ''digest shared with retained tag'', w)
            else if DryRun policy then (''would_delete'', ''exceeds retention limits'', w)
            else (case callDeleteManifest client repoName (imageInfo.Digest (img d)) w of
                    (Some err, w1) \<Rightarrow> (''error_delete'', ''failed to delete: '' @ err, w1)
                  | (None, w1) \<Rightarrow> (''deleted'', ''exceeds retention limits'', w1)))
         else (''kept'', reason d, w))
      in (\<lparr>Repository = repoName, RetentionLog.Tag = imageInfo.Tag (img d),
           RetentionLog.Digest = imageInfo.Digest (img d),
           RetentionLog.Created = imageInfo.Created (img d),
           Action = action, Reason = reason\<rparr>, w'))"

fun pass2 ::
  "'s Client \<Rightarrow> RetentionPolicy \<Rightarrow> string \<Rightarrow> (string \<rightharpoonup> bool) \<Rightarrow> tagDecision list
   \<Rightarrow> RetentionLog list \<Rightarrow> 's world \<Rightarrow> RetentionLog list \<times> 's world" where
  "pass2 client policy repoName keptDigests [] logs w = (logs, w)"
| "pass2 client policy repoName keptDigests (d # decisions) logs w =
     (let (entry, w') = executeAction client policy repoName keptDigests d w
      in pass2 client policy repoName keptDigests decisions (logs @ [entry]) w')"

text \<open>Both passes over the sorted slice \<open>images\<close>, at the clock reading \<open>now\<close>.\<close>

definition decideAndAct ::
  "'s Client \<Rightarrow> RetentionPolicy \<Rightarrow> time \<Rightarrow> string \<Rightarrow> imageInfo list \<Rightarrow> 's world
   \<Rightarrow> RetentionLog list \<times> 's world" where
  "decideAndAct client policy now repoName images w =
     (let (keptDigests, decisions) = pass1 policy now 0 images Map.empty []
      in pass2 client policy repoName keptDigests decisions [] w)"

subsection \<open>\<^verbatim>\<open>processRepository\<close> and \<^verbatim>\<open>RunRetention\<close>\<close>

text \<open>
  \<open>processRepository client rx policy now repoName w (r, w')\<close>: from the world \<open>w\<close>, with
  \<^verbatim>\<open>time.Now()\<close> reading \<open>now\<close>, the call can return \<open>r\<close> and leave the world \<open>w'\<close>.
  \<open>processTags\<close> is the function from the point where \<^verbatim>\<open>ListTags\<close> has returned \<open>tags\<close>.
\<close>

definition processTags ::
  "'s Client \<Rightarrow> 're regexp \<Rightarrow> RetentionPolicy \<Rightarrow> time \<Rightarrow> string \<Rightarrow> string list \<Rightarrow> 's world
   \<Rightarrow> (error + RetentionLog list) \<times> 's world \<Rightarrow> bool" where
  "processTags client rx policy now repoName tags w res \<longleftrightarrow>
     (if tags = [] then res = (Inr [], w)
      else (\<exists>images.
              sortSlice (List.map_filter
                 (fetchDetails client rx (compileOrNil rx (ExcludeTags policy))
                    (registry w) repoName) tags) images \<and>
              res = (Inr (fst (decideAndAct client policy now repoName images w)),
                     snd (decideAndAct client policy now repoName images w))))"

definition processRepository ::
  "'s Client \<Rightarrow> 're regexp \<Rightarrow> RetentionPolicy \<Rightarrow> time \<Rightarrow> string \<Rightarrow> 's world
   \<Rightarrow> (error + RetentionLog list) \<times> 's world \<Rightarrow> bool" where
  "processRepository client rx policy now repoName w res \<longleftrightarrow>
     (case ListTags client (registry w) repoName of
        Inl err \<Rightarrow> res = (Inl err, w)
      | Inr tags \<Rightarrow> processTags client rx policy now repoName tags w res)"

text \<open>Whether the loop of \<^verbatim>\<open>RunRetention\<close> skips a repository.\<close>

definition skipRepo :: "'re regexp \<Rightarrow> 're option \<Rightarrow> 're option \<Rightarrow> string \<Rightarrow> bool" where
  "skipRepo rx filterRepoRe excludeRepoRe name \<longleftrightarrow>
     (case filterRepoRe of None \<Rightarrow> False | Some re \<Rightarrow> \<not> MatchString rx re name) \<or>
     (case excludeRepoRe of None \<Rightarrow> False | Some re \<Rightarrow> MatchString rx re name)"

inductive retentionLoop ::
  "'s Client \<Rightarrow> 're regexp \<Rightarrow> RetentionPolicy \<Rightarrow> 're option \<Rightarrow> 're option \<Rightarrow> string list
   \<Rightarrow> RetentionLog list \<Rightarrow> 's world \<Rightarrow> RetentionLog list \<times> 's world \<Rightarrow> bool"
  for client rx policy filterRepoRe excludeRepoRe where
  loop_done:
    "retentionLoop client rx policy filterRepoRe excludeRepoRe [] logs w (logs, w)"
| loop_skip:
    "skipRepo rx filterRepoRe excludeRepoRe repo \<Longrightarrow>
     retentionLoop client rx policy filterRepoRe excludeRepoRe repos logs w res \<Longrightarrow>
     retentionLoop client rx policy filterRepoRe excludeRepoRe (repo # repos) logs w res"
| loop_error:
    "\<not> skipRepo rx filterRepoRe excludeRepoRe repo \<Longrightarrow>
     processRepository client rx policy now repo w (Inl err, w') \<Longrightarrow>
     retentionLoop client rx policy filterRepoRe excludeRepoRe repos logs w' res \<Longrightarrow>
     retentionLoop client rx policy filterRepoRe excludeRepoRe (repo # repos) logs w res"
| loop_logs:
    "\<not> skipRepo rx filterRepoRe excludeRepoRe repo \<Longrightarrow>
     processRepository client rx policy now repo w (Inr repoLogs, w') \<Longrightarrow>
     retentionLoop client rx policy filterRepoRe excludeRepoRe repos (logs @ repoLogs) w' res \<Longrightarrow>
     retentionLoop client rx policy filterRepoRe excludeRepoRe (repo # repos) logs w res"

definition RunRetention ::
  "'s Client \<Rightarrow> 're regexp \<Rightarrow> RetentionPolicy \<Rightarrow> 's world
   \<Rightarrow> (error + RetentionLog list) \<times> 's world \<Rightarrow> bool" where
  "RunRetention client rx policy w res \<longleftrightarrow>
     (case ListRepositories client (registry w) of
        Inl err \<Rightarrow> res = (Inl (''failed to list repositories: '' @ err), w)
      | Inr repos \<Rightarrow>
          (\<exists>logs w'.
             retentionLoop client rx policy
               (compileOrNil rx (FilterRepos policy)) (compileOrNil rx (ExcludeRepos policy))
               repos [] w (logs, w') \<and>
             res = (Inr logs, w')))"

section \<open>Scan scheduler\<close>

record ScanPolicy =
  ID :: int
  RegistryID :: int
  Enabled :: bool
  IntervalHours :: int
  NextRunAt :: time
  LastRunAt :: time
  FilterRepos :: string
  FilterTags :: string

record Registry =
  ID :: int
  Name :: string
  URL :: string
  Username :: string
  Password :: string
  Insecure :: bool

record VulnerabilityScan =
  ID :: int
  RegistryID :: int
  Repository :: string
  Tag :: string
  Digest :: string
  Status :: string
  Summary :: string
  Report :: string
  ScannedAt :: time

record ScanJob =
  RegistryURL :: string
  RegistryID :: int
  Repo :: string
  Tag :: string

subsection \<open>The database\<close>

text \<open>
  The tables that the scheduler reads and writes hold the rows as the \<^verbatim>\<open>Scan\<close> calls of
  package \<^verbatim>\<open>database\<close> read them (a \<^verbatim>\<open>NULL\<close> time column reads as the zero \<^verbatim>\<open>Time\<close>).
  An SQL statement can fail: \<open>failures\<close> lists, for the statements still to come, whether
  each one fails; a statement that fails changes no table.
\<close>

record DB =
  scan_policies :: "ScanPolicy list"
  vuln_scans :: "VulnerabilityScan list"
  registries :: "Registry list"
  failures :: "bool list"

definition stmt :: "DB \<Rightarrow> bool \<times> DB" where
  "stmt db = (case failures db of [] \<Rightarrow> (False, db) | f # fs \<Rightarrow> (f, db\<lparr>failures := fs\<rparr>))"

definition ListEnabledScanPolicies :: "DB \<Rightarrow> (error + ScanPolicy list) \<times> DB" where
  "ListEnabledScanPolicies db =
     (let (failed, db1) = stmt db
      in if failed then (Inl ''sql: query failed'', db1)
         else (Inr (filter Enabled (scan_policies db1)), db1))"

definition UpdatePolicyRunTime :: "DB \<Rightarrow> int \<Rightarrow> time \<Rightarrow> time \<Rightarrow> error option \<times> DB" where
  "UpdatePolicyRunTime db policyID lastRun nextRun =
     (let (failed, db1) = stmt db
      in if failed then (Some ''sql: exec failed'', db1)
         else (None, db1\<lparr>scan_policies :=
                 map (\<lambda>p. if ScanPolicy.ID p = policyID
                           then p\<lparr>LastRunAt := lastRun, NextRunAt := nextRun\<rparr> else p)
                   (scan_policies db1)\<rparr>))"

definition GetRegistry :: "DB \<Rightarrow> int \<Rightarrow> (error + Registry) \<times> DB" where
  "GetRegistry db registryID =
     (let (failed, db1) = stmt db
      in if failed then (Inl ''sql: query failed'', db1)
         else (case find (\<lambda>r. Registry.ID r = registryID) (registries db1) of
                 None \<Rightarrow> (Inl ''sql: no rows in result set'', db1)
               | Some r \<Rightarrow> (Inr r, db1)))"

definition nextScanID :: "VulnerabilityScan list \<Rightarrow> int" where
  "nextScanID rows = fold max (map VulnerabilityScan.ID rows) 0 + 1"

definition SaveScan :: "DB \<Rightarrow> VulnerabilityScan \<Rightarrow> error option \<times> VulnerabilityScan \<times> DB" where
  "SaveScan db s =
     (let (failed, db1) = stmt db
      in if failed then (Some ''sql: query failed'', s, db1)
         else
           (case find (\<lambda>r. VulnerabilityScan.RegistryID r = VulnerabilityScan.RegistryID s \<and>
                            VulnerabilityScan.Repository r = VulnerabilityScan.Repository s \<and>
                            VulnerabilityScan.Tag r = VulnerabilityScan.Tag s) (vuln_scans db1) of
              Some row \<Rightarrow>
                (let (failed, db2) = stmt db1;
                     s' = s\<lparr>VulnerabilityScan.ID := VulnerabilityScan.ID row\<rparr>
                 in if failed then (Some ''sql: exec failed'', s', db2)
                    else (None, s', db2\<lparr>vuln_scans :=
                            map (\<lambda>r. if VulnerabilityScan.ID r = VulnerabilityScan.ID row
                                      then r\<lparr>VulnerabilityScan.Digest := VulnerabilityScan.Digest s,
                                             Status := Status s, Summary := Summary s,
                                             Report := Report s, ScannedAt := ScannedAt s\<rparr>
                                      else r) (vuln_scans db2)\<rparr>))
            | None \<Rightarrow>
                (let (failed, db2) = stmt db1
                 in if failed then (Some ''sql: exec failed'', s, db2)
                    else (let s' = s\<lparr>VulnerabilityScan.ID := nextScanID (vuln_scans db2)\<rparr>
                          in (None, s', db2\<lparr>vuln_scans := vuln_scans db2 @ [s']\<rparr>)))))"

subsection \<open>\<^verbatim>\<open>checkSchedules\<close>\<close>

text \<open>
  What one call does, in order: a write of the run times of a policy, or the start of the
  goroutine \<^verbatim>\<open>go s.triggerPolicy(p)\<close>.
\<close>

datatype event = UpdateRunTime int time time | GoTriggerPolicy ScanPolicy

definition due :: "time \<Rightarrow> ScanPolicy \<Rightarrow> bool" where
  "due now p \<longleftrightarrow> IsZero (NextRunAt p) \<or> After now (NextRunAt p)"

definition nextRun :: "time \<Rightarrow> ScanPolicy \<Rightarrow> time" where
  "nextRun now p =
     (let interval = IntervalHours p;
          interval = (if interval < 1 then 24 else interval)
      in Add now (wrap64 (interval * Hour)))"

fun schedulePolicies :: "time \<Rightarrow> ScanPolicy list \<Rightarrow> event list \<Rightarrow> DB \<Rightarrow> event list \<times> DB" where
  "schedulePolicies now [] events db = (events, db)"
| "schedulePolicies now (p # policies) events db =
     (if due now p then
        (let next = nextRun now p;
             (err, db1) = UpdatePolicyRunTime db (ScanPolicy.ID p) now next
         in schedulePolicies now policies
              (events @ [UpdateRunTime (ScanPolicy.ID p) now next, GoTriggerPolicy p]) db1)
      else schedulePolicies now policies events db)"

definition checkSchedules :: "time \<Rightarrow> DB \<Rightarrow> event list \<times> DB" where
  "checkSchedules now db =
     (case ListEnabledScanPolicies db of
        (Inl err, db1) \<Rightarrow> ([], db1)
      | (Inr policies, db1) \<Rightarrow> schedulePolicies now policies [] db1)"

subsection \<open>\<^verbatim>\<open>triggerPolicy\<close>\<close>

text \<open>
  The \<^verbatim>\<open>select\<close> that sends a job either sends it or gives up when \<^verbatim>\<open>time.After\<close> fires.
  Which of the two happens depends on the workers; it is a parameter: \<open>accept n\<close> tells
  whether the channel takes the job of the \<open>n\<close>-th \<^verbatim>\<open>select\<close> of the call. The result is
  the error logged before an early return or the value of \<^verbatim>\<open>count\<close> that the last line logs, and the
  jobs sent on the channel.
\<close>

fun enqueueTags ::
  "(nat \<Rightarrow> bool) \<Rightarrow> Registry \<Rightarrow> string \<Rightarrow> string list \<Rightarrow> int \<times> ScanJob list \<times> nat
   \<Rightarrow> int \<times> ScanJob list \<times> nat" where
  "enqueueTags accept reg repoName [] st = st"
| "enqueueTags accept reg repoName (tag # tags) (cnt, sent, n) =
     (if accept n then
        enqueueTags accept reg repoName tags
          (cnt + 1,
           sent @ [\<lparr>RegistryURL = URL reg, ScanJob.RegistryID = Registry.ID reg,
                    Repo = repoName, ScanJob.Tag = tag\<rparr>],
           Suc n)
      else enqueueTags accept reg repoName tags (cnt, sent, Suc n))"

fun dispatchRepos ::
  "'s Client \<Rightarrow> 're regexp \<Rightarrow> (nat \<Rightarrow> bool) \<Rightarrow> 's \<Rightarrow> Registry \<Rightarrow> 're option \<Rightarrow> string list
   \<Rightarrow> int \<times> ScanJob list \<times> nat \<Rightarrow> int \<times> ScanJob list \<times> nat" where
  "dispatchRepos client rx accept s reg filterRe [] st = st"
| "dispatchRepos client rx accept s reg filterRe (repoName # repos) st =
     (if (case filterRe of None \<Rightarrow> False | Some re \<Rightarrow> \<not> MatchString rx re repoName)
      then dispatchRepos client rx accept s reg filterRe repos st
      else (case ListTags client s repoName of
              Inl err \<Rightarrow> dispatchRepos client rx accept s reg filterRe repos st
            | Inr tags \<Rightarrow>
                dispatchRepos client rx accept s reg filterRe repos
                  (enqueueTags accept reg repoName tags st)))"

definition triggerPolicy ::
  "(Registry \<Rightarrow> 's Client) \<Rightarrow> 're regexp \<Rightarrow> (nat \<Rightarrow> bool) \<Rightarrow> 's \<Rightarrow> DB \<Rightarrow> ScanPolicy
   \<Rightarrow> (error + int) \<times> ScanJob list \<times> DB" where
  "triggerPolicy NewClient rx accept s db p =
     (case GetRegistry db (ScanPolicy.RegistryID p) of
        (Inl err, db1) \<Rightarrow> (Inl ''Scheduler: Registry not found'', [], db1)
      | (Inr reg, db1) \<Rightarrow>
          (let client = NewClient reg
           in case ListRepositories client s of
                Inl err \<Rightarrow> (Inl (''Scheduler: Failed to list repos: '' @ err), [], db1)
              | Inr repos \<Rightarrow>
                  (if ScanPolicy.FilterRepos p \<noteq> [] then
                     (case Compile rx (ScanPolicy.FilterRepos p) of
                        Inl err \<Rightarrow> (Inl (''Scheduler: Invalid filter regex: '' @ err), [], db1)
                      | Inr re \<Rightarrow>
                          (case dispatchRepos client rx accept s reg (Some re) repos (0, [], 0) of
                             (cnt, sent, n) \<Rightarrow> (Inr cnt, sent, db1)))
                   else
                     (case dispatchRepos client rx accept s reg None repos (0, [], 0) of
                        (cnt, sent, n) \<Rightarrow> (Inr cnt, sent, db1)))))"

subsection \<open>\<^verbatim>\<open>worker\<close>\<close>

text \<open>
  The scanner is a capability over a state \<open>'x\<close> of its own. The world of a worker is the
  database, the scanner, the calls of \<^verbatim>\<open>scanner.ScanImage\<close> and of \<^verbatim>\<open>SaveScan\<close> made so
  far, and the number of readings of \<^verbatim>\<open>time.Now()\<close> taken so far, the \<open>n\<close>-th of which
  yields \<open>clock n\<close>.
\<close>

record 'x workerWorld =
  db :: DB
  scanner :: 'x
  scanCalls :: "(string \<times> string \<times> string) list"
  saveCalls :: "VulnerabilityScan list"
  ticks :: nat

definition callNow :: "(nat \<Rightarrow> time) \<Rightarrow> 'x workerWorld \<Rightarrow> time \<times> 'x workerWorld" where
  "callNow clock w = (clock (ticks w), w\<lparr>ticks := Suc (ticks w)\<rparr>)"

definition callSaveScan ::
  "VulnerabilityScan \<Rightarrow> 'x workerWorld \<Rightarrow> error option \<times> VulnerabilityScan \<times> 'x workerWorld" where
  "callSaveScan scan w =
     (case SaveScan (db w) scan of
        (err, scan', db') \<Rightarrow> (err, scan', w\<lparr>db := db', saveCalls := saveCalls w @ [scan]\<rparr>))"

definition callScanImage ::
  "('x \<Rightarrow> string \<Rightarrow> string \<Rightarrow> string \<Rightarrow> (error + string \<times> string) \<times> 'x) \<Rightarrow> string \<Rightarrow> string \<Rightarrow> string
   \<Rightarrow> 'x workerWorld \<Rightarrow> (error + string \<times> string) \<times> 'x workerWorld" where
  "callScanImage ScanImage registryURL repo tag w =
     (case ScanImage (scanner w) registryURL repo tag of
        (r, x') \<Rightarrow> (r, w\<lparr>scanner := x', scanCalls := scanCalls w @ [(registryURL, repo, tag)]\<rparr>))"

text \<open>The record that a worker creates for a job, read at the clock reading \<open>now\<close>.\<close>

definition scanningRecord :: "ScanJob \<Rightarrow> time \<Rightarrow> VulnerabilityScan" where
  "scanningRecord job now =
     \<lparr>VulnerabilityScan.ID = 0, VulnerabilityScan.RegistryID = ScanJob.RegistryID job,
      VulnerabilityScan.Repository = Repo job, VulnerabilityScan.Tag = ScanJob.Tag job,
      VulnerabilityScan.Digest = [], Status = ''scanning'', Summary = [], Report = [],
      ScannedAt = now\<rparr>"

text \<open>The body of the loop \<^verbatim>\<open>for job := range s.jobChan\<close>.\<close>

definition processJob ::
  "('x \<Rightarrow> string \<Rightarrow> string \<Rightarrow> string \<Rightarrow> (error + string \<times> string) \<times> 'x) \<Rightarrow> (nat \<Rightarrow> time) \<Rightarrow> ScanJob
   \<Rightarrow> 'x workerWorld \<Rightarrow> 'x workerWorld" where
  "processJob ScanImage clock job w =
     (let (now1, w1) = callNow clock w;
          scan = scanningRecord job now1;
          (err, scan, w2) = callSaveScan scan w1
      in if err \<noteq> None then w2
         else
           (let (r, w3) = callScanImage ScanImage (RegistryURL job) (Repo job) (ScanJob.Tag job) w2;
                scan = (case r of
                          Inl e \<Rightarrow> scan\<lparr>Status := ''failed'',
                                        Report := ''{'' @ [CHR 0x22] @ ''error'' @ [CHR 0x22] @ '': ''
                                                  @ [CHR 0x22] @ e @ [CHR 0x22] @ ''}''\<rparr>
                        | Inr (report, summary) \<Rightarrow>
                            scan\<lparr>Status := ''completed'', Report := report, Summary := summary\<rparr>);
                (now2, w4) = callNow clock w3;
                scan = scan\<lparr>ScannedAt := now2\<rparr>;
                (err, scan, w5) = callSaveScan scan w4
            in w5))"

fun worker ::
  "('x \<Rightarrow> string \<Rightarrow> string \<Rightarrow> string \<Rightarrow> (error + string \<times> string) \<times> 'x) \<Rightarrow> (nat \<Rightarrow> time) \<Rightarrow> ScanJob list
   \<Rightarrow> 'x workerWorld \<Rightarrow> 'x workerWorld" where
  "worker ScanImage clock [] w = w"
| "worker ScanImage clock (job # jobs) w = worker ScanImage clock jobs (processJob ScanImage clock job w)"

section \<open>Auxiliary functions and example instances\<close>

text \<open>The decisions of the first loop, without the accumulators.\<close>

fun decisionsFrom :: "RetentionPolicy \<Rightarrow> time \<Rightarrow> nat \<Rightarrow> imageInfo list \<Rightarrow> tagDecision list" where
  "decisionsFrom policy now i [] = []"
| "decisionsFrom policy now i (im # images) =
     evaluateRules policy now i im # decisionsFrom policy now (Suc i) images"

text \<open>The calls of \<open>DeleteManifest\<close> that a run has added to those of the world \<open>w\<close>.\<close>

definition newDeleteCalls :: "'s world \<Rightarrow> 's world \<Rightarrow> (string \<times> string) list" where
  "newDeleteCalls w w' = drop (length (deleteCalls w)) (deleteCalls w')"

text \<open>
  A registry held in memory, for concrete runs: its state lists (repository, tag, digest,
  creation time) entries. An entry without a creation time stands for an image whose
  configuration cannot be read, an entry with an empty digest for a tag for which the
  registry returns no digest. \<open>DeleteManifest\<close> removes the entries of the digest.
\<close>

type_synonym memRegistry = "(string \<times> string \<times> string \<times> time option) list"

definition memFind :: "memRegistry \<Rightarrow> string \<Rightarrow> string \<Rightarrow> (string \<times> string \<times> string \<times> time option) option" where
  "memFind s repoName t = find (\<lambda>e. fst e = repoName \<and> fst (snd e) = t) s"

definition memClient :: "memRegistry Client" where
  "memClient =
     \<lparr>ListRepositories = (\<lambda>s. Inr (remdups (map fst s))),
      ListTags = (\<lambda>s repoName. Inr (map (\<lambda>e. fst (snd e)) (filter (\<lambda>e. fst e = repoName) s))),
      GetImageCreated = (\<lambda>s repoName t.
        case memFind s repoName t of
          Some (_, _, _, Some created) \<Rightarrow> Inr created
        | _ \<Rightarrow> Inl ''manifest config digest missing''),
      GetDigestForTag = (\<lambda>s repoName t.
        case memFind s repoName t of
          Some (_, _, digest, _) \<Rightarrow>
            if digest = [] then Inl (''no digest returned for tag '' @ t) else Inr digest
        | None \<Rightarrow> Inl (''no digest returned for tag '' @ t)),
      DeleteManifest = (\<lambda>s repoName digest.
        if \<exists>e \<in> set s. fst e = repoName \<and> fst (snd (snd e)) = digest
        then (None, filter (\<lambda>e. \<not> (fst e = repoName \<and> fst (snd (snd e)) = digest)) s)
        else (Some ''registry returned status 404: '', s))\<rparr>"

text \<open>
  A small stand-in for package \<^verbatim>\<open>regexp\<close>: the pattern \<^verbatim>\<open>(\<close> does not compile, every other
  pattern compiles and matches the strings that contain it.
\<close>

fun containsString :: "string \<Rightarrow> string \<Rightarrow> bool" where
  "containsString pat [] = (pat = [])"
| "containsString pat (c # cs) = (take (length pat) (c # cs) = pat \<or> containsString pat cs)"

definition substringRegexp :: "string regexp" where
  "substringRegexp =
     \<lparr>Compile = (\<lambda>pat. if pat = ''('' then Inl ''error parsing regexp: missing closing )''
                        else Inr pat),
      MatchString = (\<lambda>re s. containsString re s)\<rparr>"

text \<open>A policy without rules, and a registry with two tags of one repository.\<close>

definition noRules :: RetentionPolicy where
  "noRules = \<lparr>KeepLastCount = 0, KeepDays = 0, DryRun = False, RetentionPolicy.FilterRepos = [],
     ExcludeRepos = [], ExcludeTags = []\<rparr>"

definition twoTags :: "memRegistry world" where
  "twoTags = \<lparr>registry = [(''app'', ''v2'', ''sha256:b'', Some 200), (''app'', ''v1'', ''sha256:a'', Some 100)],
              deleteCalls = []\<rparr>"

text \<open>Policies that keep the newest one or two images, and candidate slices.\<close>

definition keepNewest :: "bool \<Rightarrow> RetentionPolicy" where
  "keepNewest dry = \<lparr>KeepLastCount = 1, KeepDays = 0, DryRun = dry, RetentionPolicy.FilterRepos = [],
     ExcludeRepos = [], ExcludeTags = []\<rparr>"

definition keepTwo :: RetentionPolicy where
  "keepTwo = \<lparr>KeepLastCount = 2, KeepDays = 0, DryRun = False, RetentionPolicy.FilterRepos = [],
     ExcludeRepos = [], ExcludeTags = []\<rparr>"

definition mkImage :: "string \<Rightarrow> string \<Rightarrow> time \<Rightarrow> imageInfo" where
  "mkImage t digest created =
     \<lparr>imageInfo.Tag = t, imageInfo.Digest = digest, imageInfo.Created = created, Protected = False\<rparr>"

definition sharedImages :: "imageInfo list" where
  "sharedImages = [mkImage ''latest'' ''sha256:d'' 200, mkImage ''v1'' ''sha256:d'' 100]"

definition fiveImages :: "imageInfo list" where
  "fiveImages = [mkImage ''v5'' ''sha256:e'' 500, mkImage ''v4'' ''sha256:d'' 400, mkImage ''v3'' ''sha256:c'' 300,
                 mkImage ''v2'' ''sha256:b'' 200, mkImage ''v1'' ''sha256:a'' 100]"

text \<open>A registry in which the configuration of the tag \<^verbatim>\<open>v3\<close> cannot be read.\<close>

definition threeTags :: "memRegistry world" where
  "threeTags = \<lparr>registry = [(''app'', ''v3'', ''sha256:c'', None), (''app'', ''v2'', ''sha256:b'', Some 200),
                            (''app'', ''v1'', ''sha256:a'', Some 100)],
                deleteCalls = []\<rparr>"

text \<open>
  A scanner that always succeeds and counts its calls, a database whose next statement
  fails, a worker that has done nothing yet, and jobs for the repository \<^verbatim>\<open>app\<close>.
\<close>

definition countingScanner :: "nat \<Rightarrow> string \<Rightarrow> string \<Rightarrow> string \<Rightarrow> (error + string \<times> string) \<times> nat" where
  "countingScanner x registryURL repo tag = (Inr (''{}'', ''{}''), Suc x)"

definition failingDB :: DB where
  "failingDB = \<lparr>scan_policies = [], vuln_scans = [], registries = [], failures = [True]\<rparr>"

definition idleWorker :: "nat workerWorld" where
  "idleWorker = \<lparr>db = failingDB, scanner = 0, scanCalls = [], saveCalls = [], ticks = 0\<rparr>"

definition appJob :: "string \<Rightarrow> ScanJob" where
  "appJob tag = \<lparr>RegistryURL = ''http://registry:5000'', ScanJob.RegistryID = 1, Repo = ''app'',
                 ScanJob.Tag = tag\<rparr>"

text \<open>
  A database that knows one registry, a scan policy with the interval \<open>hours\<close> and the
  repository filter \<open>pat\<close>, a job channel that takes every job, and the client of the
  registry held in memory.
\<close>

definition oneRegistry :: DB where
  "oneRegistry =
     \<lparr>scan_policies = [], vuln_scans = [],
      registries = [\<lparr>Registry.ID = 1, Name = ''local'', URL = ''http://registry:5000'',
                     Username = [], Password = [], Insecure = True\<rparr>],
      failures = []\<rparr>"

definition scanEvery :: "int \<Rightarrow> string \<Rightarrow> ScanPolicy" where
  "scanEvery hours pat =
     \<lparr>ScanPolicy.ID = 1, ScanPolicy.RegistryID = 1, Enabled = True, IntervalHours = hours,
      NextRunAt = 0, LastRunAt = 0, ScanPolicy.FilterRepos = pat, FilterTags = []\<rparr>"

definition alwaysAccept :: "nat \<Rightarrow> bool" where
  "alwaysAccept n = True"

definition memNewClient :: "Registry \<Rightarrow> memRegistry Client" where
  "memNewClient reg = memClient"

text \<open>
  A clock reading in the year 2025, and the database of one registry with the single scan
  policy \<open>p\<close>.
\<close>

definition tickTime :: time where
  "tickTime = 63900000000000000000"

definition scheduled :: "ScanPolicy \<Rightarrow> DB" where
  "scheduled p = oneRegistry\<lparr>scan_policies := [p]\<rparr>"

text \<open>A policy with the keep-days rule alone.\<close>

definition keepDaysOnly :: "int \<Rightarrow> RetentionPolicy" where
  "keepDaysOnly n = \<lparr>KeepLastCount = 0, KeepDays = n, DryRun = False, RetentionPolicy.FilterRepos = [],
     ExcludeRepos = [], ExcludeTags = []\<rparr>"


section \<open>The two passes\<close>


lemma pass1_snd: "snd (pass1 policy now i images keptDigests decisions) = decisions @ decisionsFrom policy now i images"
  by (induction images arbitrary: i keptDigests decisions) (simp_all add: Let_def)

lemma length_decisionsFrom: "length (decisionsFrom policy now i images) = length images"
  by (induction images arbitrary: i) simp_all

lemma decisionsFrom_nth:
  "j < length images \<Longrightarrow> decisionsFrom policy now i images ! j = evaluateRules policy now (i + j) (images ! j)"
proof (induction images arbitrary: i j)
  case Nil
  then show ?case by simp
next
  case (Cons im images)
  then show ?case by (cases j) simp_all
qed

lemma img_evaluateRules: "img (evaluateRules policy now i im) = im"
  by (simp add: evaluateRules_def Let_def)

lemma pass1_fst:
  "lookupBool (fst (pass1 policy now i images keptDigests decisions)) dg \<longleftrightarrow>
     lookupBool keptDigests dg \<or>
     (\<exists>d \<in> set (decisionsFrom policy now i images). keep d \<and> imageInfo.Digest (img d) = dg)"
  by (induction images arbitrary: i keptDigests decisions)
     (auto simp add: Let_def lookupBool_def img_evaluateRules)


lemma pass2_prefix:
  "k < length logs \<Longrightarrow> fst (pass2 client policy repoName keptDigests decisions logs w) ! k = logs ! k"
  by (induction decisions arbitrary: logs w) (simp_all add: split_beta nth_append)

lemma length_pass2:
  "length (fst (pass2 client policy repoName keptDigests decisions logs w)) = length logs + length decisions"
  by (induction decisions arbitrary: logs w) (simp_all add: split_beta)

lemma pass2_nth:
  "j < length decisions \<Longrightarrow>
   \<exists>w0. fst (pass2 client policy repoName keptDigests decisions logs w) ! (length logs + j) =
         fst (executeAction client policy repoName keptDigests (decisions ! j) w0)"
proof (induction decisions arbitrary: logs w j)
  case Nil
  then show ?case by simp
next
  case (Cons d decisions)
  show ?case
  proof (cases j)
    case 0
    then show ?thesis
      by (auto simp add: split_beta pass2_prefix nth_append)
  next
    case (Suc j')
    with Cons.prems have "j' < length decisions" by simp
    from Cons.IH [OF this, of "logs @ [fst (executeAction client policy repoName keptDigests d w)]"
        "snd (executeAction client policy repoName keptDigests d w)"]
    show ?thesis using Suc by (simp add: split_beta)
  qed
qed

lemma deleteCalls_executeAction:
  "deleteCalls (snd (executeAction client policy repoName keptDigests d w)) =
     deleteCalls w @
     (if \<not> keep d \<and> \<not> lookupBool keptDigests (imageInfo.Digest (img d)) \<and> \<not> DryRun policy
      then [(repoName, imageInfo.Digest (img d))] else [])"
  by (simp add: executeAction_def callDeleteManifest_def split_beta split: option.splits)

lemma deleteCalls_pass2:
  "deleteCalls (snd (pass2 client policy repoName keptDigests decisions logs w)) =
     deleteCalls w @
     map (\<lambda>d. (repoName, imageInfo.Digest (img d)))
       (filter (\<lambda>d. \<not> keep d \<and> \<not> lookupBool keptDigests (imageInfo.Digest (img d)) \<and> \<not> DryRun policy)
          decisions)"
  by (induction decisions arbitrary: logs w) (simp_all add: split_beta deleteCalls_executeAction)

lemma executeAction_unchanged:
  "keep d \<or> lookupBool keptDigests (imageInfo.Digest (img d)) \<or> DryRun policy \<Longrightarrow>
   snd (executeAction client policy repoName keptDigests d w) = w"
  by (auto simp add: executeAction_def)

lemma pass2_unchanged:
  "(\<And>d. d \<in> set decisions \<Longrightarrow> keep d \<or> lookupBool keptDigests (imageInfo.Digest (img d)) \<or> DryRun policy) \<Longrightarrow>
   snd (pass2 client policy repoName keptDigests decisions logs w) = w"
  by (induction decisions arbitrary: logs w) (simp_all add: split_beta executeAction_unchanged)

section \<open>Properties of a retention run\<close>


lemma length_decideAndAct:
  "length (fst (decideAndAct client policy now repoName images w)) = length images"
  by (simp add: decideAndAct_def split_beta length_pass2 pass1_snd length_decisionsFrom)

lemma decideAndAct_nth:
  assumes "j < length images"
  shows "\<exists>w0. fst (decideAndAct client policy now repoName images w) ! j =
           fst (executeAction client policy repoName (fst (pass1 policy now 0 images Map.empty []))
                  (evaluateRules policy now j (images ! j)) w0)"
proof -
  from assms have "j < length (decisionsFrom policy now 0 images)"
    by (simp add: length_decisionsFrom)
  from pass2_nth [OF this, of client policy repoName "fst (pass1 policy now 0 images Map.empty [])" "[]" w]
  show ?thesis using assms
    by (simp add: decideAndAct_def split_beta pass1_snd decisionsFrom_nth)
qed

lemma decideAndAct_entry:
  assumes "l \<in> set (fst (decideAndAct client policy now repoName images w))"
  shows "\<exists>j w0. j < length images \<and>
           l = fst (executeAction client policy repoName (fst (pass1 policy now 0 images Map.empty []))
                  (evaluateRules policy now j (images ! j)) w0)"
proof -
  from assms obtain j where j: "j < length images"
    and l: "l = fst (decideAndAct client policy now repoName images w) ! j"
    by (auto simp add: in_set_conv_nth length_decideAndAct)
  from decideAndAct_nth [OF j, of client policy now repoName w] l j show ?thesis by auto
qed

lemma deleteCalls_decideAndAct:
  "deleteCalls (snd (decideAndAct client policy now repoName images w)) =
     deleteCalls w @
     map (\<lambda>d. (repoName, imageInfo.Digest (img d)))
       (filter (\<lambda>d. \<not> keep d \<and>
                     \<not> lookupBool (fst (pass1 policy now 0 images Map.empty [])) (imageInfo.Digest (img d)) \<and>
                     \<not> DryRun policy)
          (decisionsFrom policy now 0 images))"
  by (simp add: decideAndAct_def split_beta deleteCalls_pass2 pass1_snd)

lemma evaluateRules_no_policy:
  "KeepLastCount policy \<le> 0 \<Longrightarrow> KeepDays policy \<le> 0 \<Longrightarrow>
   keep (evaluateRules policy now i im) \<and> reason (evaluateRules policy now i im) = ''no policy set''"
  by (simp add: evaluateRules_def ruleNoPolicy_def Let_def)

lemma executeAction_keep:
  "keep d \<Longrightarrow> Action (fst (executeAction client policy repoName keptDigests d w)) = ''kept'' \<and>
     Reason (fst (executeAction client policy repoName keptDigests d w)) = reason d"
  by (simp add: executeAction_def)

lemma decisionsFrom_no_policy:
  "KeepLastCount policy \<le> 0 \<Longrightarrow> KeepDays policy \<le> 0 \<Longrightarrow> d \<in> set (decisionsFrom policy now i images) \<Longrightarrow>
   keep d"
  by (induction images arbitrary: i) (auto simp add: evaluateRules_no_policy)

lemma decideAndAct_no_policy:
  assumes "KeepLastCount policy \<le> 0" "KeepDays policy \<le> 0"
  shows "snd (decideAndAct client policy now repoName images w) = w"
    and "l \<in> set (fst (decideAndAct client policy now repoName images w)) \<Longrightarrow>
         Action l = ''kept'' \<and> Reason l = ''no policy set''"
proof -
  show "snd (decideAndAct client policy now repoName images w) = w"
    using assms
    by (simp add: decideAndAct_def split_beta pass1_snd pass2_unchanged decisionsFrom_no_policy)
next
  assume "l \<in> set (fst (decideAndAct client policy now repoName images w))"
  from decideAndAct_entry [OF this] obtain j w0 where
    "l = fst (executeAction client policy repoName (fst (pass1 policy now 0 images Map.empty []))
                  (evaluateRules policy now j (images ! j)) w0)" by blast
  then show "Action l = ''kept'' \<and> Reason l = ''no policy set''"
    using assms by (simp add: executeAction_keep evaluateRules_no_policy)
qed

lemma processTags_result:
  assumes "processTags client rx policy now repoName tags w res"
  shows "\<exists>images. res = (Inr (fst (decideAndAct client policy now repoName images w)),
                         snd (decideAndAct client policy now repoName images w))"
proof (cases "tags = []")
  case True
  with assms have "res = (Inr [], w)" by (simp add: processTags_def)
  moreover have "decideAndAct client policy now repoName [] w = ([], w)"
    by (simp add: decideAndAct_def)
  ultimately show ?thesis by (intro exI [of _ "[]"]) simp
next
  case False
  with assms show ?thesis by (auto simp add: processTags_def)
qed

lemma processRepository_Inl:
  assumes "processRepository client rx policy now repoName w (Inl err, w')"
  shows "w' = w"
proof (cases "ListTags client (registry w) repoName")
  case (Inl e)
  with assms show ?thesis by (simp add: processRepository_def)
next
  case (Inr tags)
  with assms have "processTags client rx policy now repoName tags w (Inl err, w')"
    by (simp add: processRepository_def)
  from processTags_result [OF this] show ?thesis by simp
qed

lemma processRepository_Inr:
  assumes "processRepository client rx policy now repoName w (Inr logs, w')"
  shows "\<exists>images. logs = fst (decideAndAct client policy now repoName images w) \<and>
                  w' = snd (decideAndAct client policy now repoName images w)"
proof (cases "ListTags client (registry w) repoName")
  case (Inl e)
  with assms show ?thesis by (simp add: processRepository_def)
next
  case (Inr tags)
  with assms have "processTags client rx policy now repoName tags w (Inr logs, w')"
    by (simp add: processRepository_def)
  from processTags_result [OF this] show ?thesis by simp
qed

lemma retentionLoop_pure:
  assumes "retentionLoop client rx policy filterRepoRe excludeRepoRe repos logs w res"
    and "\<And>now repo images w. snd (decideAndAct client policy now repo images w) = w"
    and "\<And>now repo images w l. l \<in> set (fst (decideAndAct client policy now repo images w)) \<Longrightarrow> ok l"
    and "\<forall>l \<in> set logs. ok l"
  shows "snd res = w \<and> (\<forall>l \<in> set (fst res). ok l)"
  using assms(1,4)
proof (induction rule: retentionLoop.induct)
  case (loop_done logs w)
  then show ?case by simp
next
  case (loop_skip repo repos logs w res)
  then show ?case by simp
next
  case (loop_error repo now w err w' repos logs res)
  from processRepository_Inl [OF loop_error.hyps(2)] have "w' = w" .
  with loop_error.IH loop_error.prems show ?case by simp
next
  case (loop_logs repo now w repoLogs w' repos logs res)
  from processRepository_Inr [OF loop_logs.hyps(2)] obtain images where
    i: "repoLogs = fst (decideAndAct client policy now repo images w)"
       "w' = snd (decideAndAct client policy now repo images w)" by blast
  have "w' = w" using i(2) assms(2) by simp
  moreover have "\<forall>l \<in> set (logs @ repoLogs). ok l"
    using i(1) loop_logs.prems assms(3) by auto
  ultimately show ?case using loop_logs.IH by simp
qed

text \<open>
  Claim C2. When the policy has \<open>KeepLastCount \<le> 0\<close> and \<open>KeepDays \<le> 0\<close>, a run of
  \<^verbatim>\<open>RunRetention\<close> that returns logs leaves the world as it found it, so it has issued no
  \<open>DeleteManifest\<close> call, and every returned log entry has the action \<^verbatim>\<open>kept\<close> and the
  reason \<^verbatim>\<open>no policy set\<close>.
\<close>

theorem no_policy_keeps_everything:
  assumes "KeepLastCount policy \<le> 0" and "KeepDays policy \<le> 0"
    and "RunRetention client rx policy w (Inr logs, w')"
  shows "w' = w \<and> newDeleteCalls w w' = [] \<and>
         (\<forall>l \<in> set logs. Action l = ''kept'' \<and> Reason l = ''no policy set'')"
proof -
  from assms(3) obtain repos where
    "retentionLoop client rx policy (compileOrNil rx (RetentionPolicy.FilterRepos policy))
       (compileOrNil rx (ExcludeRepos policy)) repos [] w (logs, w')"
    by (auto simp add: RunRetention_def split: sum.splits)
  then have "snd (logs, w') = w \<and>
     (\<forall>l \<in> set (fst (logs, w')). Action l = ''kept'' \<and> Reason l = ''no policy set'')"
  proof (rule retentionLoop_pure)
    show "snd (decideAndAct client policy now repo images w) = w" for now repo images w
      by (rule decideAndAct_no_policy(1) [OF assms(1,2)])
    show "Action l = ''kept'' \<and> Reason l = ''no policy set''"
      if "l \<in> set (fst (decideAndAct client policy now repo images w))" for now repo images w l
      using that by (rule decideAndAct_no_policy(2) [OF assms(1,2)])
    show "\<forall>l \<in> set []. Action l = ''kept'' \<and> Reason l = ''no policy set''" by simp
  qed
  then show ?thesis by (simp add: newDeleteCalls_def)
qed

lemma sortSlice_refl:
  "sorted_wrt (\<lambda>a b. \<not> After (imageInfo.Created b) (imageInfo.Created a)) images \<Longrightarrow> sortSlice images images"
  by (simp add: sortSlice_def)

lemma noRules_run:
  "RunRetention memClient substringRegexp noRules twoTags
     (Inr [\<lparr>RetentionLog.Repository = ''app'', RetentionLog.Tag = ''v2'', RetentionLog.Digest = ''sha256:b'',
            RetentionLog.Created = 200, Action = ''kept'', Reason = ''no policy set''\<rparr>,
           \<lparr>RetentionLog.Repository = ''app'', RetentionLog.Tag = ''v1'', RetentionLog.Digest = ''sha256:a'',
            RetentionLog.Created = 100, Action = ''kept'', Reason = ''no policy set''\<rparr>], twoTags)"
proof -
  let ?logs = "[\<lparr>RetentionLog.Repository = ''app'', RetentionLog.Tag = ''v2'', RetentionLog.Digest = ''sha256:b'',
            RetentionLog.Created = 200, Action = ''kept'', Reason = ''no policy set''\<rparr>,
           \<lparr>RetentionLog.Repository = ''app'', RetentionLog.Tag = ''v1'', RetentionLog.Digest = ''sha256:a'',
            RetentionLog.Created = 100, Action = ''kept'', Reason = ''no policy set''\<rparr>]"
  let ?images = "[\<lparr>imageInfo.Tag = ''v2'', imageInfo.Digest = ''sha256:b'', imageInfo.Created = 200, Protected = False\<rparr>,
                  \<lparr>imageInfo.Tag = ''v1'', imageInfo.Digest = ''sha256:a'', imageInfo.Created = 100, Protected = False\<rparr>]"
  have f: "List.map_filter (fetchDetails memClient substringRegexp (compileOrNil substringRegexp (ExcludeTags noRules))
              (registry twoTags) ''app'') [''v2'', ''v1''] = ?images"
    by (simp add: List.map_filter_def fetchDetails_def memClient_def memFind_def compileOrNil_def noRules_def twoTags_def)
  have d: "decideAndAct memClient noRules 0 ''app'' ?images twoTags = (?logs, twoTags)"
    by (simp add: decideAndAct_def evaluateRules_def ruleKeepLastCount_def ruleKeepDays_def
        ruleWhitelist_def ruleNoPolicy_def executeAction_def noRules_def Let_def)
  have p: "processRepository memClient substringRegexp noRules 0 ''app'' twoTags (Inr ?logs, twoTags)"
    unfolding processRepository_def processTags_def
    apply (simp add: memClient_def twoTags_def)
    apply (rule exI [of _ ?images])
    using f d
    apply (simp add: memClient_def twoTags_def sortSlice_def After_def)
    done
  have "retentionLoop memClient substringRegexp noRules None None [''app''] [] twoTags (?logs, twoTags)"
    by (rule loop_logs [OF _ p]) (simp_all add: skipRepo_def loop_done)
  then show ?thesis
    by (simp add: RunRetention_def memClient_def twoTags_def compileOrNil_def noRules_def)
qed

theorem no_policy_keeps_everything_witness:
  "KeepLastCount noRules \<le> 0 \<and> KeepDays noRules \<le> 0 \<and>
   RunRetention memClient substringRegexp noRules twoTags
     (Inr [\<lparr>RetentionLog.Repository = ''app'', RetentionLog.Tag = ''v2'', RetentionLog.Digest = ''sha256:b'',
            RetentionLog.Created = 200, Action = ''kept'', Reason = ''no policy set''\<rparr>,
           \<lparr>RetentionLog.Repository = ''app'', RetentionLog.Tag = ''v1'', RetentionLog.Digest = ''sha256:a'',
            RetentionLog.Created = 100, Action = ''kept'', Reason = ''no policy set''\<rparr>], twoTags) \<and>
   newDeleteCalls twoTags twoTags = []"
proof -
  have k: "KeepLastCount noRules \<le> 0" "KeepDays noRules \<le> 0"
    by (simp_all add: noRules_def)
  from no_policy_keeps_everything [OF k noRules_run] k noRules_run show ?thesis by simp
qed

lemma executeAction_fields:
  "RetentionLog.Repository (fst (executeAction client policy repoName keptDigests d w)) = repoName \<and>
   RetentionLog.Tag (fst (executeAction client policy repoName keptDigests d w)) = imageInfo.Tag (img d) \<and>
   RetentionLog.Digest (fst (executeAction client policy repoName keptDigests d w)) = imageInfo.Digest (img d) \<and>
   RetentionLog.Created (fst (executeAction client policy repoName keptDigests d w)) = imageInfo.Created (img d)"
  by (simp add: executeAction_def split_beta)

lemma executeAction_shared:
  "\<not> keep d \<Longrightarrow> lookupBool keptDigests (imageInfo.Digest (img d)) \<Longrightarrow>
   Action (fst (executeAction client policy repoName keptDigests d w)) = ''kept'' \<and>
   Reason (fst (executeAction client policy repoName keptDigests d w)) = ''digest shared with retained tag''"
  by (simp add: executeAction_def)

lemma executeAction_dry_run:
  "\<not> keep d \<Longrightarrow> \<not> lookupBool keptDigests (imageInfo.Digest (img d)) \<Longrightarrow> DryRun policy \<Longrightarrow>
   Action (fst (executeAction client policy repoName keptDigests d w)) = ''would_delete'' \<and>
   Reason (fst (executeAction client policy repoName keptDigests d w)) = ''exceeds retention limits''"
  by (simp add: executeAction_def)

lemma executeAction_delete:
  "\<not> keep d \<Longrightarrow> \<not> lookupBool keptDigests (imageInfo.Digest (img d)) \<Longrightarrow> \<not> DryRun policy \<Longrightarrow>
   Action (fst (executeAction client policy repoName keptDigests d w)) = ''deleted'' \<or>
   Action (fst (executeAction client policy repoName keptDigests d w)) = ''error_delete''"
  by (simp add: executeAction_def split_beta split: option.splits)

lemma decisions_nth:
  "i < length images \<Longrightarrow>
   snd (pass1 policy now 0 images Map.empty []) ! i = evaluateRules policy now i (images ! i)"
  by (simp add: pass1_snd decisionsFrom_nth)

lemma lookupBool_empty: "\<not> lookupBool Map.empty dg"
  by (simp add: lookupBool_def)

lemma keptDigests_iff:
  "lookupBool (fst (pass1 policy now 0 images Map.empty [])) dg \<longleftrightarrow>
   (\<exists>j < length images. keep (snd (pass1 policy now 0 images Map.empty []) ! j) \<and>
        imageInfo.Digest (images ! j) = dg)"
proof -
  have "(\<exists>d \<in> set (decisionsFrom policy now 0 images). keep d \<and> imageInfo.Digest (img d) = dg) \<longleftrightarrow>
        (\<exists>j < length images. keep (decisionsFrom policy now 0 images ! j) \<and>
            imageInfo.Digest (img (decisionsFrom policy now 0 images ! j)) = dg)"
    by (simp add: Bex_def in_set_conv_nth length_decisionsFrom) blast
  then show ?thesis
    by (simp add: pass1_fst pass1_snd lookupBool_empty decisionsFrom_nth img_evaluateRules cong: conj_cong)
qed

text \<open>
  Claim C1. In the two passes that \<^verbatim>\<open>processRepository\<close> runs over the candidates of a
  repository, whatever their arrangement: a candidate that the first pass marks not-keep and
  whose digest is the digest of a candidate marked keep gets a log entry with the action
  \<^verbatim>\<open>kept\<close> and the reason \<^verbatim>\<open>digest shared with retained tag\<close>, and no \<open>DeleteManifest\<close>
  call of the run names its digest.
\<close>

theorem shared_digest_is_kept:
  assumes "i < length images" and "j < length images"
    and "\<not> keep (snd (pass1 policy now 0 images Map.empty []) ! i)"
    and "keep (snd (pass1 policy now 0 images Map.empty []) ! j)"
    and "imageInfo.Digest (images ! j) = imageInfo.Digest (images ! i)"
  shows "RetentionLog.Tag (fst (decideAndAct client policy now repoName images w) ! i) = imageInfo.Tag (images ! i) \<and>
         Action (fst (decideAndAct client policy now repoName images w) ! i) = ''kept'' \<and>
         Reason (fst (decideAndAct client policy now repoName images w) ! i) = ''digest shared with retained tag'' \<and>
         (repoName, imageInfo.Digest (images ! i)) \<notin>
            set (newDeleteCalls w (snd (decideAndAct client policy now repoName images w)))"
proof -
  let ?kd = "fst (pass1 policy now 0 images Map.empty [])"
  let ?d = "evaluateRules policy now i (images ! i)"
  have shared: "lookupBool ?kd (imageInfo.Digest (images ! i))"
    using assms(2,4,5) by (auto simp add: keptDigests_iff)
  have nk: "\<not> keep ?d" using assms(1,3) by (simp add: decisions_nth)
  from decideAndAct_nth [OF assms(1), of client policy now repoName w] obtain w0 where
    "fst (decideAndAct client policy now repoName images w) ! i =
       fst (executeAction client policy repoName ?kd ?d w0)" by blast
  then have "RetentionLog.Tag (fst (decideAndAct client policy now repoName images w) ! i) = imageInfo.Tag (images ! i) \<and>
         Action (fst (decideAndAct client policy now repoName images w) ! i) = ''kept'' \<and>
         Reason (fst (decideAndAct client policy now repoName images w) ! i) = ''digest shared with retained tag''"
    using executeAction_shared [OF nk, of ?kd client policy repoName w0] shared
    by (simp add: executeAction_fields img_evaluateRules)
  moreover have "(repoName, imageInfo.Digest (images ! i)) \<notin>
            set (newDeleteCalls w (snd (decideAndAct client policy now repoName images w)))"
    using shared by (auto simp add: newDeleteCalls_def deleteCalls_decideAndAct)
  ultimately show ?thesis by simp
qed

lemma decideAndAct_dry_run:
  "DryRun policy \<Longrightarrow> snd (decideAndAct client policy now repoName images w) = w"
  by (simp add: decideAndAct_def split_beta pass2_unchanged)

text \<open>
  Claim C3. With \<open>DryRun\<close> set, a run of \<^verbatim>\<open>RunRetention\<close> leaves the world as it found it,
  so \<open>DeleteManifest\<close> is never called; and in the two passes over the candidates of a
  repository, a candidate that no rule keeps and whose digest no kept candidate has gets the
  action \<^verbatim>\<open>would_delete\<close> with the reason \<^verbatim>\<open>exceeds retention limits\<close>.
\<close>

theorem dry_run_issues_no_delete:
  assumes "DryRun policy"
  shows "(RunRetention client rx policy w (res, w') \<longrightarrow> w' = w \<and> newDeleteCalls w w' = []) \<and>
         (i < length images \<and>
          \<not> keep (snd (pass1 policy now 0 images Map.empty []) ! i) \<and>
          (\<forall>j < length images. keep (snd (pass1 policy now 0 images Map.empty []) ! j) \<longrightarrow>
              imageInfo.Digest (images ! j) \<noteq> imageInfo.Digest (images ! i)) \<longrightarrow>
          RetentionLog.Tag (fst (decideAndAct client policy now repoName images v) ! i) = imageInfo.Tag (images ! i) \<and>
          Action (fst (decideAndAct client policy now repoName images v) ! i) = ''would_delete'' \<and>
          Reason (fst (decideAndAct client policy now repoName images v) ! i) = ''exceeds retention limits'' \<and>
          snd (decideAndAct client policy now repoName images v) = v)"
proof (intro conjI impI)
  assume run: "RunRetention client rx policy w (res, w')"
  show "w' = w"
  proof (cases "ListRepositories client (registry w)")
    case (Inl err)
    with run show ?thesis by (simp add: RunRetention_def)
  next
    case (Inr repos)
    with run obtain logs where
      "retentionLoop client rx policy (compileOrNil rx (RetentionPolicy.FilterRepos policy))
         (compileOrNil rx (ExcludeRepos policy)) repos [] w (logs, w')"
      by (auto simp add: RunRetention_def)
    then have "snd (logs, w') = w \<and> (\<forall>l \<in> set (fst (logs, w')). True)"
    proof (rule retentionLoop_pure)
      show "snd (decideAndAct client policy now repo images w) = w" for now repo images w
        using assms by (rule decideAndAct_dry_run)
    qed simp_all
    then show ?thesis by simp
  qed
  then show "newDeleteCalls w w' = []" by (simp add: newDeleteCalls_def)
next
  assume h: "i < length images \<and>
          \<not> keep (snd (pass1 policy now 0 images Map.empty []) ! i) \<and>
          (\<forall>j < length images. keep (snd (pass1 policy now 0 images Map.empty []) ! j) \<longrightarrow>
              imageInfo.Digest (images ! j) \<noteq> imageInfo.Digest (images ! i))"
  let ?kd = "fst (pass1 policy now 0 images Map.empty [])"
  let ?d = "evaluateRules policy now i (images ! i)"
  from h have i: "i < length images"
    and nk0: "\<not> keep (snd (pass1 policy now 0 images Map.empty []) ! i)"
    and all: "\<forall>j < length images. keep (snd (pass1 policy now 0 images Map.empty []) ! j) \<longrightarrow>
              imageInfo.Digest (images ! j) \<noteq> imageInfo.Digest (images ! i)"
    by blast+
  have nk: "\<not> keep ?d" using nk0 i by (simp add: decisions_nth)
  have ns: "\<not> lookupBool ?kd (imageInfo.Digest (img ?d))"
    using all by (auto simp add: keptDigests_iff img_evaluateRules)
  from decideAndAct_nth [OF i, of client policy now repoName v] obtain w0 where
    e: "fst (decideAndAct client policy now repoName images v) ! i =
       fst (executeAction client policy repoName ?kd ?d w0)" by blast
  show "RetentionLog.Tag (fst (decideAndAct client policy now repoName images v) ! i) = imageInfo.Tag (images ! i)"
    using e by (simp add: executeAction_fields img_evaluateRules)
  show "Action (fst (decideAndAct client policy now repoName images v) ! i) = ''would_delete''"
    using e executeAction_dry_run [OF nk ns assms, where client = client and repoName = repoName and w = w0]
    by simp
  show "Reason (fst (decideAndAct client policy now repoName images v) ! i) = ''exceeds retention limits''"
    using e executeAction_dry_run [OF nk ns assms, where client = client and repoName = repoName and w = w0]
    by simp
  show "snd (decideAndAct client policy now repoName images v) = v"
    using assms by (rule decideAndAct_dry_run)
qed

lemma evaluateRules_keep_last:
  assumes "0 < KeepLastCount policy" and "KeepDays policy \<le> 0" and "\<not> Protected im"
  shows "evaluateRules policy now i im =
           (if int i < KeepLastCount policy
            then \<lparr>img = im, keep = True,
                  reason = ''within last '' @ Sprintd (KeepLastCount policy) @ '' images''\<rparr>
            else \<lparr>img = im, keep = False, reason = ''default keep''\<rparr>)"
  using assms
  by (simp add: evaluateRules_def ruleKeepLastCount_def ruleKeepDays_def ruleWhitelist_def
      ruleNoPolicy_def Let_def)

text \<open>
  Claim C4. With \<open>KeepLastCount = N > 0\<close>, the keep-last rule keeps the candidate at index
  \<open>i\<close> of the sorted slice, with the reason \<^verbatim>\<open>within last N images\<close>, exactly when \<open>i < N\<close>.
  When moreover \<open>KeepDays \<le> 0\<close> and no candidate is protected, the first pass marks keep
  exactly the indices below \<open>N\<close>, their log entries are \<^verbatim>\<open>kept\<close> with that reason, and every
  other candidate is a deletion candidate: unless it shares its digest with one of the first
  \<open>N\<close>, its action is \<^verbatim>\<open>would_delete\<close>, \<^verbatim>\<open>deleted\<close> or \<^verbatim>\<open>error_delete\<close>.
\<close>

theorem keep_last_count_keeps_newest:
  assumes "0 < KeepLastCount policy" and "i < length images"
  shows "(ruleKeepLastCount policy i (False, ''default keep'') =
            (True, ''within last '' @ Sprintd (KeepLastCount policy) @ '' images'')
          \<longleftrightarrow> int i < KeepLastCount policy) \<and>
         (KeepDays policy \<le> 0 \<and> (\<forall>im \<in> set images. \<not> Protected im) \<longrightarrow>
            (keep (snd (pass1 policy now 0 images Map.empty []) ! i) \<longleftrightarrow> int i < KeepLastCount policy) \<and>
            (int i < KeepLastCount policy \<longrightarrow>
               Action (fst (decideAndAct client policy now repoName images w) ! i) = ''kept'' \<and>
               Reason (fst (decideAndAct client policy now repoName images w) ! i) =
                 ''within last '' @ Sprintd (KeepLastCount policy) @ '' images'') \<and>
            (\<not> int i < KeepLastCount policy \<and>
             (\<forall>j < length images. int j < KeepLastCount policy \<longrightarrow>
                 imageInfo.Digest (images ! j) \<noteq> imageInfo.Digest (images ! i)) \<longrightarrow>
               Action (fst (decideAndAct client policy now repoName images w) ! i)
                 \<in> {''would_delete'', ''deleted'', ''error_delete''}))"
proof (intro conjI impI)
  show "ruleKeepLastCount policy i (False, ''default keep'') =
            (True, ''within last '' @ Sprintd (KeepLastCount policy) @ '' images'')
          \<longleftrightarrow> int i < KeepLastCount policy"
    using assms(1) by (simp add: ruleKeepLastCount_def)
next
  assume h: "KeepDays policy \<le> 0 \<and> (\<forall>im \<in> set images. \<not> Protected im)"
  let ?kd = "fst (pass1 policy now 0 images Map.empty [])"
  have ev: "evaluateRules policy now j (images ! j) =
           (if int j < KeepLastCount policy
            then \<lparr>img = images ! j, keep = True,
                  reason = ''within last '' @ Sprintd (KeepLastCount policy) @ '' images''\<rparr>
            else \<lparr>img = images ! j, keep = False, reason = ''default keep''\<rparr>)"
    if "j < length images" for j
    using that h by (intro evaluateRules_keep_last [OF assms(1)]) simp_all
  show k: "keep (snd (pass1 policy now 0 images Map.empty []) ! i) \<longleftrightarrow> int i < KeepLastCount policy"
    using assms(2) by (simp add: decisions_nth ev)
  from decideAndAct_nth [OF assms(2), of client policy now repoName w] obtain w0 where
    e: "fst (decideAndAct client policy now repoName images w) ! i =
       fst (executeAction client policy repoName ?kd (evaluateRules policy now i (images ! i)) w0)"
    by blast
  {
    assume "int i < KeepLastCount policy"
    then have "keep (evaluateRules policy now i (images ! i))"
      and "reason (evaluateRules policy now i (images ! i)) =
             ''within last '' @ Sprintd (KeepLastCount policy) @ '' images''"
      using assms(2) by (simp_all add: ev)
    then show "Action (fst (decideAndAct client policy now repoName images w) ! i) = ''kept''"
      and "Reason (fst (decideAndAct client policy now repoName images w) ! i) =
                 ''within last '' @ Sprintd (KeepLastCount policy) @ '' images''"
      using e by (simp_all add: executeAction_keep)
  }
  {
    assume n: "\<not> int i < KeepLastCount policy \<and>
             (\<forall>j < length images. int j < KeepLastCount policy \<longrightarrow>
                 imageInfo.Digest (images ! j) \<noteq> imageInfo.Digest (images ! i))"
    have nk: "\<not> keep (evaluateRules policy now i (images ! i))"
      using n assms(2) by (simp add: ev)
    have ns: "\<not> lookupBool ?kd (imageInfo.Digest (img (evaluateRules policy now i (images ! i))))"
      using n by (auto simp add: keptDigests_iff img_evaluateRules decisions_nth ev)
    show "Action (fst (decideAndAct client policy now repoName images w) ! i)
                 \<in> {''would_delete'', ''deleted'', ''error_delete''}"
    proof (cases "DryRun policy")
      case True
      from executeAction_dry_run [OF nk ns True, where client = client and repoName = repoName and w = w0] e
      show ?thesis by simp
    next
      case False
      from executeAction_delete [OF nk ns False, where client = client and repoName = repoName and w = w0] e
      show ?thesis by auto
    qed
  }
qed

lemma Sprintd_1: "Sprintd 1 = ''1''"
  by (simp add: Sprintd_def digit_def)

lemma Sprintd_2: "Sprintd 2 = ''2''"
  by (simp add: Sprintd_def digit_def)

theorem shared_digest_is_kept_witness:
  "(1::nat) < length sharedImages \<and> (0::nat) < length sharedImages \<and>
   \<not> keep (snd (pass1 (keepNewest False) 1000 0 sharedImages Map.empty []) ! 1) \<and>
   keep (snd (pass1 (keepNewest False) 1000 0 sharedImages Map.empty []) ! 0) \<and>
   imageInfo.Digest (sharedImages ! 0) = imageInfo.Digest (sharedImages ! 1) \<and>
   RetentionLog.Tag (fst (decideAndAct memClient (keepNewest False) 1000 ''app'' sharedImages twoTags) ! 1) = ''v1'' \<and>
   Action (fst (decideAndAct memClient (keepNewest False) 1000 ''app'' sharedImages twoTags) ! 1) = ''kept'' \<and>
   Reason (fst (decideAndAct memClient (keepNewest False) 1000 ''app'' sharedImages twoTags) ! 1) =
     ''digest shared with retained tag'' \<and>
   (''app'', ''sha256:d'') \<notin>
     set (newDeleteCalls twoTags (snd (decideAndAct memClient (keepNewest False) 1000 ''app'' sharedImages twoTags)))"
proof -
  have l: "(1::nat) < length sharedImages" "(0::nat) < length sharedImages"
    by (simp_all add: sharedImages_def)
  have d: "snd (pass1 (keepNewest False) 1000 0 sharedImages Map.empty []) =
     [\<lparr>img = mkImage ''latest'' ''sha256:d'' 200, keep = True, reason = ''within last 1 images''\<rparr>,
      \<lparr>img = mkImage ''v1'' ''sha256:d'' 100, keep = False, reason = ''default keep''\<rparr>]"
    by (simp add: sharedImages_def keepNewest_def mkImage_def evaluateRules_def ruleKeepLastCount_def
        ruleKeepDays_def ruleWhitelist_def ruleNoPolicy_def Let_def Sprintd_1)
  have k: "\<not> keep (snd (pass1 (keepNewest False) 1000 0 sharedImages Map.empty []) ! 1)"
    "keep (snd (pass1 (keepNewest False) 1000 0 sharedImages Map.empty []) ! 0)"
    unfolding d by simp_all
  have e: "imageInfo.Digest (sharedImages ! 0) = imageInfo.Digest (sharedImages ! 1)"
    by (simp add: sharedImages_def mkImage_def)
  from shared_digest_is_kept [OF l k e, of memClient "''app''" twoTags] l k e
  show ?thesis by (simp add: sharedImages_def mkImage_def)
qed

theorem dry_run_issues_no_delete_witness:
  "DryRun (keepNewest True) \<and>
   RunRetention memClient substringRegexp (keepNewest True) twoTags
     (Inr [\<lparr>RetentionLog.Repository = ''app'', RetentionLog.Tag = ''v2'', RetentionLog.Digest = ''sha256:b'',
            RetentionLog.Created = 200, Action = ''kept'', Reason = ''within last 1 images''\<rparr>,
           \<lparr>RetentionLog.Repository = ''app'', RetentionLog.Tag = ''v1'', RetentionLog.Digest = ''sha256:a'',
            RetentionLog.Created = 100, Action = ''would_delete'', Reason = ''exceeds retention limits''\<rparr>],
      twoTags) \<and>
   newDeleteCalls twoTags twoTags = [] \<and>
   (1::nat) < length [mkImage ''v2'' ''sha256:b'' 200, mkImage ''v1'' ''sha256:a'' 100] \<and>
   \<not> keep (snd (pass1 (keepNewest True) 1000 0
               [mkImage ''v2'' ''sha256:b'' 200, mkImage ''v1'' ''sha256:a'' 100] Map.empty []) ! 1) \<and>
   Action (fst (decideAndAct memClient (keepNewest True) 1000 ''app''
                 [mkImage ''v2'' ''sha256:b'' 200, mkImage ''v1'' ''sha256:a'' 100] twoTags) ! 1) = ''would_delete''"
proof -
  let ?logs = "[\<lparr>RetentionLog.Repository = ''app'', RetentionLog.Tag = ''v2'', RetentionLog.Digest = ''sha256:b'',
            RetentionLog.Created = 200, Action = ''kept'', Reason = ''within last 1 images''\<rparr>,
           \<lparr>RetentionLog.Repository = ''app'', RetentionLog.Tag = ''v1'', RetentionLog.Digest = ''sha256:a'',
            RetentionLog.Created = 100, Action = ''would_delete'', Reason = ''exceeds retention limits''\<rparr>]"
  let ?images = "[mkImage ''v2'' ''sha256:b'' 200, mkImage ''v1'' ''sha256:a'' 100]"
  have dry: "DryRun (keepNewest True)" by (simp add: keepNewest_def)
  have f: "List.map_filter (fetchDetails memClient substringRegexp
              (compileOrNil substringRegexp (ExcludeTags (keepNewest True)))
              (registry twoTags) ''app'') [''v2'', ''v1''] = ?images"
    by (simp add: List.map_filter_def fetchDetails_def memClient_def memFind_def compileOrNil_def
        keepNewest_def twoTags_def mkImage_def)
  have d: "snd (pass1 (keepNewest True) 1000 0 ?images Map.empty []) =
     [\<lparr>img = mkImage ''v2'' ''sha256:b'' 200, keep = True, reason = ''within last 1 images''\<rparr>,
      \<lparr>img = mkImage ''v1'' ''sha256:a'' 100, keep = False, reason = ''default keep''\<rparr>]"
    by (simp add: keepNewest_def mkImage_def evaluateRules_def ruleKeepLastCount_def
        ruleKeepDays_def ruleWhitelist_def ruleNoPolicy_def Let_def Sprintd_1)
  have a: "decideAndAct memClient (keepNewest True) 1000 ''app'' ?images twoTags = (?logs, twoTags)"
    by (simp add: decideAndAct_def keepNewest_def mkImage_def evaluateRules_def ruleKeepLastCount_def
        ruleKeepDays_def ruleWhitelist_def ruleNoPolicy_def Let_def Sprintd_1 executeAction_def
        lookupBool_def)
  have p: "processRepository memClient substringRegexp (keepNewest True) 1000 ''app'' twoTags
             (Inr ?logs, twoTags)"
    unfolding processRepository_def processTags_def
    apply (simp add: memClient_def twoTags_def)
    apply (rule exI [of _ ?images])
    using f a
    apply (simp add: memClient_def twoTags_def sortSlice_def After_def mkImage_def)
    done
  have "retentionLoop memClient substringRegexp (keepNewest True) None None [''app''] []
          twoTags (?logs, twoTags)"
    by (rule loop_logs [OF _ p]) (simp_all add: skipRepo_def loop_done)
  then have r: "RunRetention memClient substringRegexp (keepNewest True) twoTags (Inr ?logs, twoTags)"
    by (simp add: RunRetention_def memClient_def twoTags_def compileOrNil_def keepNewest_def)
  have l: "(1::nat) < length ?images" by simp
  have k: "\<not> keep (snd (pass1 (keepNewest True) 1000 0 ?images Map.empty []) ! 1)"
    unfolding d by simp
  have n: "\<forall>j < length ?images.
      keep (snd (pass1 (keepNewest True) 1000 0 ?images Map.empty []) ! j) \<longrightarrow>
      imageInfo.Digest (?images ! j) \<noteq> imageInfo.Digest (?images ! 1)"
    unfolding d by (simp add: less_Suc_eq mkImage_def)
  from dry_run_issues_no_delete [OF dry, of memClient substringRegexp twoTags "Inr ?logs" twoTags
      1 ?images 1000 "''app''" twoTags] dry r l k n
  show ?thesis by simp
qed

theorem keep_last_count_keeps_newest_witness:
  "0 < KeepLastCount keepTwo \<and> (1::nat) < length fiveImages \<and> (3::nat) < length fiveImages \<and>
   KeepDays keepTwo \<le> 0 \<and> list_all (\<lambda>im. \<not> Protected im) fiveImages \<and>
   keep (snd (pass1 keepTwo 1000 0 fiveImages Map.empty []) ! 1) \<and>
   Action (fst (decideAndAct memClient keepTwo 1000 ''app'' fiveImages twoTags) ! 1) = ''kept'' \<and>
   Reason (fst (decideAndAct memClient keepTwo 1000 ''app'' fiveImages twoTags) ! 1) = ''within last 2 images'' \<and>
   \<not> keep (snd (pass1 keepTwo 1000 0 fiveImages Map.empty []) ! 3) \<and>
   Action (fst (decideAndAct memClient keepTwo 1000 ''app'' fiveImages twoTags) ! 3)
     \<in> {''would_delete'', ''deleted'', ''error_delete''}"
proof -
  have p: "0 < KeepLastCount keepTwo" "KeepDays keepTwo \<le> 0" "KeepLastCount keepTwo = 2"
    by (simp_all add: keepTwo_def)
  have l: "(1::nat) < length fiveImages" "(3::nat) < length fiveImages"
    by (simp_all add: fiveImages_def)
  have u: "\<forall>im \<in> set fiveImages. \<not> Protected im"
    by (simp add: fiveImages_def mkImage_def)
  have n: "\<forall>j < length fiveImages. int j < KeepLastCount keepTwo \<longrightarrow>
             imageInfo.Digest (fiveImages ! j) \<noteq> imageInfo.Digest (fiveImages ! 3)"
    by (simp add: fiveImages_def mkImage_def keepTwo_def less_Suc_eq)
  from keep_last_count_keeps_newest [OF p(1) l(1), of 1000 memClient "''app''" twoTags]
    keep_last_count_keeps_newest [OF p(1) l(2), of 1000 memClient "''app''" twoTags]
    p l u n
  show ?thesis by (simp add: Sprintd_2 list_all_iff)
qed

lemma pass2_append:
  "pass2 client policy repoName keptDigests decisions logs w =
     (logs @ fst (pass2 client policy repoName keptDigests decisions [] w),
      snd (pass2 client policy repoName keptDigests decisions [] w))"
proof (induction decisions arbitrary: logs w)
  case Nil
  show ?case by simp
next
  case (Cons d decisions)
  show ?case
    by (simp add: split_beta Cons.IH [of "logs @ _"] Cons.IH [of "[_]"])
qed

lemma executeAction_called_iff:
  "(Action (fst (executeAction client policy repoName keptDigests d w)) = ''deleted'' \<or>
    Action (fst (executeAction client policy repoName keptDigests d w)) = ''error_delete'') \<longleftrightarrow>
   \<not> keep d \<and> \<not> lookupBool keptDigests (imageInfo.Digest (img d)) \<and> \<not> DryRun policy"
  by (simp add: executeAction_def split_beta split: option.splits)

lemma pass2_calls_logged:
  "deleteCalls (snd (pass2 client policy repoName keptDigests decisions [] w)) =
     deleteCalls w @
     map (\<lambda>l. (RetentionLog.Repository l, RetentionLog.Digest l))
       (filter (\<lambda>l. Action l = ''deleted'' \<or> Action l = ''error_delete'')
          (fst (pass2 client policy repoName keptDigests decisions [] w)))"
proof (induction decisions arbitrary: w)
  case Nil
  show ?case by simp
next
  case (Cons d decisions)
  let ?e = "executeAction client policy repoName keptDigests d w"
  have "pass2 client policy repoName keptDigests (d # decisions) [] w =
          (fst ?e # fst (pass2 client policy repoName keptDigests decisions [] (snd ?e)),
           snd (pass2 client policy repoName keptDigests decisions [] (snd ?e)))"
    by (simp add: split_beta pass2_append [of _ _ _ _ _ "[_]"])
  then show ?case
    using executeAction_called_iff [of client policy repoName keptDigests d w]
    by (simp add: Cons.IH deleteCalls_executeAction executeAction_fields)
qed

lemma fetchDetails_None_iff:
  "fetchDetails client rx excludeTagRe s repoName t = None \<longleftrightarrow>
     isl (GetImageCreated client s repoName t) \<or> isl (GetDigestForTag client s repoName t)"
  by (simp add: fetchDetails_def Let_def split: sum.splits)

lemma fetchDetails_Tag:
  "fetchDetails client rx excludeTagRe s repoName t = Some im \<Longrightarrow> imageInfo.Tag im = t"
  by (auto simp add: fetchDetails_def Let_def split: sum.splits)

lemma map_filter_drop_failed:
  "f t = None \<Longrightarrow> List.map_filter f (filter (\<lambda>u. u \<noteq> t) tags) = List.map_filter f tags"
  by (induction tags) (auto split: option.splits)

lemma decideAndAct_Nil: "decideAndAct client policy now repoName [] w = ([], w)"
  by (simp add: decideAndAct_def)

lemma sortSlice_Nil: "sortSlice [] images \<longleftrightarrow> images = []"
  by (auto simp add: sortSlice_def)

lemma decideAndAct_tags:
  "map RetentionLog.Tag (fst (decideAndAct client policy now repoName images w)) =
   map imageInfo.Tag images"
proof (rule nth_equalityI)
  show "length (map RetentionLog.Tag (fst (decideAndAct client policy now repoName images w))) =
        length (map imageInfo.Tag images)"
    by (simp add: length_decideAndAct)
next
  fix i
  assume "i < length (map RetentionLog.Tag (fst (decideAndAct client policy now repoName images w)))"
  then have i: "i < length images" by (simp add: length_decideAndAct)
  from decideAndAct_nth [OF i, of client policy now repoName w] obtain w0 where
    "fst (decideAndAct client policy now repoName images w) ! i =
       fst (executeAction client policy repoName (fst (pass1 policy now 0 images Map.empty []))
              (evaluateRules policy now i (images ! i)) w0)" by blast
  then show "map RetentionLog.Tag (fst (decideAndAct client policy now repoName images w)) ! i =
        map imageInfo.Tag images ! i"
    using i by (simp add: length_decideAndAct executeAction_fields img_evaluateRules)
qed

lemma decideAndAct_calls_logged:
  "newDeleteCalls w (snd (decideAndAct client policy now repoName images w)) =
     map (\<lambda>l. (RetentionLog.Repository l, RetentionLog.Digest l))
       (filter (\<lambda>l. Action l = ''deleted'' \<or> Action l = ''error_delete'')
          (fst (decideAndAct client policy now repoName images w)))"
  by (simp add: newDeleteCalls_def decideAndAct_def split_beta pass2_calls_logged)

lemma processTags_cases:
  assumes "processTags client rx policy now repoName tags w (r, w')"
  shows "\<exists>images. set images \<subseteq> set (List.map_filter
              (fetchDetails client rx (compileOrNil rx (ExcludeTags policy)) (registry w) repoName) tags) \<and>
           r = Inr (fst (decideAndAct client policy now repoName images w)) \<and>
           w' = snd (decideAndAct client policy now repoName images w)"
proof (cases "tags = []")
  case True
  with assms show ?thesis
    by (intro exI [of _ "[]"]) (simp add: processTags_def decideAndAct_Nil)
next
  case False
  with assms obtain images where
    "sortSlice (List.map_filter
        (fetchDetails client rx (compileOrNil rx (ExcludeTags policy)) (registry w) repoName) tags) images"
    and "r = Inr (fst (decideAndAct client policy now repoName images w))"
    and "w' = snd (decideAndAct client policy now repoName images w)"
    by (auto simp add: processTags_def)
  moreover from this(1) have "set images = set (List.map_filter
        (fetchDetails client rx (compileOrNil rx (ExcludeTags policy)) (registry w) repoName) tags)"
    by (auto simp add: sortSlice_def dest: mset_eq_setD)
  ultimately show ?thesis by blast
qed

text \<open>
  What holds of a tag \<open>t\<close> whose creation time or digest fails to be fetched:
  \<^verbatim>\<open>processRepository\<close> has the same possible results for the listed tags as for the list
  without \<open>t\<close>, so \<open>t\<close> adds nothing to the sort order, the indices or \<^verbatim>\<open>keptDigests\<close>; no
  returned log entry names \<open>t\<close>; and the \<open>DeleteManifest\<close> calls of the run are, in order,
  those of the log entries with the action \<^verbatim>\<open>deleted\<close> or \<^verbatim>\<open>error_delete\<close>. These calls
  name digests, not tags: nothing here keeps the digest of \<open>t\<close> out of them.
\<close>

lemma failed_fetch_drops_tag:
  assumes "isl (GetImageCreated client (registry w) repoName t) \<or>
           isl (GetDigestForTag client (registry w) repoName t)"
  shows "(processTags client rx policy now repoName tags w res \<longleftrightarrow>
          processTags client rx policy now repoName (filter (\<lambda>u. u \<noteq> t) tags) w res) \<and>
         (processRepository client rx policy now repoName w (Inr logs, w') \<longrightarrow>
            t \<notin> RetentionLog.Tag ` set logs \<and>
            newDeleteCalls w w' =
              map (\<lambda>l. (RetentionLog.Repository l, RetentionLog.Digest l))
                (filter (\<lambda>l. Action l = ''deleted'' \<or> Action l = ''error_delete'') logs))"
proof (intro conjI impI)
  let ?f = "fetchDetails client rx (compileOrNil rx (ExcludeTags policy)) (registry w) repoName"
  have none: "?f t = None"
    using assms by (simp add: fetchDetails_None_iff)
  have same: "List.map_filter ?f (filter (\<lambda>u. u \<noteq> t) tags) = List.map_filter ?f tags"
    using none by (rule map_filter_drop_failed)
  show "processTags client rx policy now repoName tags w res \<longleftrightarrow>
        processTags client rx policy now repoName (filter (\<lambda>u. u \<noteq> t) tags) w res"
  proof (cases "filter (\<lambda>u. u \<noteq> t) tags = []")
    case False
    then have "tags \<noteq> []" by auto
    with False show ?thesis by (simp add: processTags_def same)
  next
    case True
    show ?thesis
    proof (cases "tags = []")
      case True
      then show ?thesis by simp
    next
      case False
      from True same have "List.map_filter ?f tags = []"
        by simp
      with True False show ?thesis
        by (simp add: processTags_def sortSlice_Nil decideAndAct_Nil)
    qed
  qed
  assume run: "processRepository client rx policy now repoName w (Inr logs, w')"
  then obtain tags' where "processTags client rx policy now repoName tags' w (Inr logs, w')"
    by (auto simp add: processRepository_def split: sum.splits)
  from processTags_cases [OF this] obtain images where
    sub: "set images \<subseteq> set (List.map_filter ?f tags')"
    and logs: "logs = fst (decideAndAct client policy now repoName images w)"
    and w': "w' = snd (decideAndAct client policy now repoName images w)"
    by auto
  show "t \<notin> RetentionLog.Tag ` set logs"
  proof
    assume "t \<in> RetentionLog.Tag ` set logs"
    then have "t \<in> set (map RetentionLog.Tag logs)" by simp
    then have "t \<in> imageInfo.Tag ` set images"
      by (simp add: logs decideAndAct_tags)
    then obtain im where "im \<in> set images" and "imageInfo.Tag im = t" by auto
    with sub obtain u where "?f u = Some im"
      by (auto simp add: List.map_filter_def)
    from fetchDetails_Tag [OF this] \<open>imageInfo.Tag im = t\<close> have "u = t" by simp
    with \<open>?f u = Some im\<close> none show False by simp
  qed
  show "newDeleteCalls w w' =
          map (\<lambda>l. (RetentionLog.Repository l, RetentionLog.Digest l))
            (filter (\<lambda>l. Action l = ''deleted'' \<or> Action l = ''error_delete'') logs)"
    by (simp add: logs w' decideAndAct_calls_logged)
qed

lemma failed_fetch_drops_tag_example:
  "isl (GetImageCreated memClient (registry threeTags) ''app'' ''v3'') \<and>
   processRepository memClient substringRegexp (keepNewest False) 1000 ''app'' threeTags
     (Inr [\<lparr>RetentionLog.Repository = ''app'', RetentionLog.Tag = ''v2'', RetentionLog.Digest = ''sha256:b'',
            RetentionLog.Created = 200, Action = ''kept'', Reason = ''within last 1 images''\<rparr>,
           \<lparr>RetentionLog.Repository = ''app'', RetentionLog.Tag = ''v1'', RetentionLog.Digest = ''sha256:a'',
            RetentionLog.Created = 100, Action = ''deleted'', Reason = ''exceeds retention limits''\<rparr>],
      \<lparr>registry = [(''app'', ''v3'', ''sha256:c'', None), (''app'', ''v2'', ''sha256:b'', Some 200)],
       deleteCalls = [(''app'', ''sha256:a'')]\<rparr>) \<and>
   processTags memClient substringRegexp (keepNewest False) 1000 ''app'' [''v2'', ''v1''] threeTags
     (Inr [\<lparr>RetentionLog.Repository = ''app'', RetentionLog.Tag = ''v2'', RetentionLog.Digest = ''sha256:b'',
            RetentionLog.Created = 200, Action = ''kept'', Reason = ''within last 1 images''\<rparr>,
           \<lparr>RetentionLog.Repository = ''app'', RetentionLog.Tag = ''v1'', RetentionLog.Digest = ''sha256:a'',
            RetentionLog.Created = 100, Action = ''deleted'', Reason = ''exceeds retention limits''\<rparr>],
      \<lparr>registry = [(''app'', ''v3'', ''sha256:c'', None), (''app'', ''v2'', ''sha256:b'', Some 200)],
       deleteCalls = [(''app'', ''sha256:a'')]\<rparr>) \<and>
   newDeleteCalls threeTags
     \<lparr>registry = [(''app'', ''v3'', ''sha256:c'', None), (''app'', ''v2'', ''sha256:b'', Some 200)],
      deleteCalls = [(''app'', ''sha256:a'')]\<rparr> = [(''app'', ''sha256:a'')]"
proof -
  let ?logs = "[\<lparr>RetentionLog.Repository = ''app'', RetentionLog.Tag = ''v2'', RetentionLog.Digest = ''sha256:b'',
            RetentionLog.Created = 200, Action = ''kept'', Reason = ''within last 1 images''\<rparr>,
           \<lparr>RetentionLog.Repository = ''app'', RetentionLog.Tag = ''v1'', RetentionLog.Digest = ''sha256:a'',
            RetentionLog.Created = 100, Action = ''deleted'', Reason = ''exceeds retention limits''\<rparr>]"
  let ?w' = "\<lparr>registry = [(''app'', ''v3'', ''sha256:c'', None), (''app'', ''v2'', ''sha256:b'', Some 200)],
       deleteCalls = [(''app'', ''sha256:a'')]\<rparr>"
  let ?images = "[mkImage ''v2'' ''sha256:b'' 200, mkImage ''v1'' ''sha256:a'' 100]"
  have fails: "isl (GetImageCreated memClient (registry threeTags) ''app'' ''v3'') \<or>
               isl (GetDigestForTag memClient (registry threeTags) ''app'' ''v3'')"
    by (simp add: memClient_def memFind_def threeTags_def)
  have f: "List.map_filter (fetchDetails memClient substringRegexp
              (compileOrNil substringRegexp (ExcludeTags (keepNewest False)))
              (registry threeTags) ''app'') [''v3'', ''v2'', ''v1''] = ?images"
    by (simp add: List.map_filter_def fetchDetails_def memClient_def memFind_def compileOrNil_def
        keepNewest_def threeTags_def mkImage_def)
  have a: "decideAndAct memClient (keepNewest False) 1000 ''app'' ?images threeTags = (?logs, ?w')"
    by (simp add: decideAndAct_def keepNewest_def mkImage_def evaluateRules_def ruleKeepLastCount_def
        ruleKeepDays_def ruleWhitelist_def ruleNoPolicy_def Let_def Sprintd_1 executeAction_def
        lookupBool_def callDeleteManifest_def memClient_def threeTags_def)
  have t: "processTags memClient substringRegexp (keepNewest False) 1000 ''app'' [''v3'', ''v2'', ''v1'']
             threeTags (Inr ?logs, ?w')"
    unfolding processTags_def
    apply simp
    apply (rule exI [of _ ?images])
    using f a
    apply (simp add: sortSlice_def After_def mkImage_def)
    done
  then have p: "processRepository memClient substringRegexp (keepNewest False) 1000 ''app'' threeTags
             (Inr ?logs, ?w')"
    by (simp add: processRepository_def memClient_def threeTags_def)
  from failed_fetch_drops_tag [OF fails, of substringRegexp "keepNewest False" 1000
      "[''v3'', ''v2'', ''v1'']" "(Inr ?logs, ?w')" ?logs ?w'] t p fails
  show ?thesis by (simp add: memClient_def memFind_def threeTags_def)
qed

lemma vuln_scans_stmt: "vuln_scans (snd (stmt d)) = vuln_scans d"
  by (simp add: stmt_def split: list.splits)

lemma SaveScan_failed:
  "fst (SaveScan d s) \<noteq> None \<Longrightarrow> vuln_scans (snd (snd (SaveScan d s))) = vuln_scans d"
  by (auto simp add: SaveScan_def split_beta Let_def vuln_scans_stmt split: option.splits if_splits)

text \<open>
  Claim C10. When the \<^verbatim>\<open>SaveScan\<close> of the record in status \<^verbatim>\<open>scanning\<close> fails, the worker
  does nothing more for the job: the scanner is not called, \<^verbatim>\<open>SaveScan\<close> is not called a
  second time, the table of scans is as before, and the loop goes on with the next job.
\<close>

theorem failed_save_skips_scan:
  assumes "fst (SaveScan (db w) (scanningRecord job (clock (ticks w)))) \<noteq> None"
  shows "processJob ScanImage clock job w =
           w\<lparr>db := snd (snd (SaveScan (db w) (scanningRecord job (clock (ticks w))))),
             saveCalls := saveCalls w @ [scanningRecord job (clock (ticks w))],
             ticks := Suc (ticks w)\<rparr> \<and>
         scanCalls (processJob ScanImage clock job w) = scanCalls w \<and>
         scanner (processJob ScanImage clock job w) = scanner w \<and>
         vuln_scans (db (processJob ScanImage clock job w)) = vuln_scans (db w) \<and>
         worker ScanImage clock (job # jobs) w =
           worker ScanImage clock jobs
             (w\<lparr>db := snd (snd (SaveScan (db w) (scanningRecord job (clock (ticks w))))),
                saveCalls := saveCalls w @ [scanningRecord job (clock (ticks w))],
                ticks := Suc (ticks w)\<rparr>)"
proof -
  have p: "processJob ScanImage clock job w =
           w\<lparr>db := snd (snd (SaveScan (db w) (scanningRecord job (clock (ticks w))))),
             saveCalls := saveCalls w @ [scanningRecord job (clock (ticks w))],
             ticks := Suc (ticks w)\<rparr>"
    using assms
    by (simp add: processJob_def callNow_def callSaveScan_def split_beta Let_def)
  moreover have "vuln_scans (snd (snd (SaveScan (db w) (scanningRecord job (clock (ticks w)))))) =
                 vuln_scans (db w)"
    using assms by (rule SaveScan_failed)
  ultimately show ?thesis by simp
qed

theorem failed_save_skips_scan_witness:
  "fst (SaveScan (db idleWorker) (scanningRecord (appJob ''v1'') (int (ticks idleWorker)))) \<noteq> None \<and>
   scanCalls (processJob countingScanner int (appJob ''v1'') idleWorker) = [] \<and>
   length (saveCalls (processJob countingScanner int (appJob ''v1'') idleWorker)) = 1 \<and>
   vuln_scans (db (processJob countingScanner int (appJob ''v1'') idleWorker)) = [] \<and>
   scanCalls (worker countingScanner int [appJob ''v1'', appJob ''v2''] idleWorker) =
     [(''http://registry:5000'', ''app'', ''v2'')] \<and>
   map (\<lambda>r. (VulnerabilityScan.Tag r, Status r))
     (vuln_scans (db (worker countingScanner int [appJob ''v1'', appJob ''v2''] idleWorker))) =
     [(''v2'', ''completed'')]"
proof -
  have f: "fst (SaveScan (db idleWorker) (scanningRecord (appJob ''v1'') (int (ticks idleWorker)))) \<noteq> None"
    by (simp add: SaveScan_def stmt_def idleWorker_def failingDB_def)
  have n: "worker countingScanner int [appJob ''v2'']
             (idleWorker\<lparr>db := snd (snd (SaveScan (db idleWorker)
                              (scanningRecord (appJob ''v1'') (int (ticks idleWorker))))),
                saveCalls := saveCalls idleWorker @ [scanningRecord (appJob ''v1'') (int (ticks idleWorker))],
                ticks := Suc (ticks idleWorker)\<rparr>) =
           \<lparr>db = \<lparr>scan_policies = [], vuln_scans =
                    [\<lparr>VulnerabilityScan.ID = 1, VulnerabilityScan.RegistryID = 1,
                      VulnerabilityScan.Repository = ''app'', VulnerabilityScan.Tag = ''v2'',
                      VulnerabilityScan.Digest = [], Status = ''completed'', Summary = ''{}'',
                      Report = ''{}'', ScannedAt = 2\<rparr>],
                  registries = [], failures = []\<rparr>,
             scanner = 1, scanCalls = [(''http://registry:5000'', ''app'', ''v2'')],
             saveCalls = [scanningRecord (appJob ''v1'') 0, scanningRecord (appJob ''v2'') 1,
                          (scanningRecord (appJob ''v2'') 1)
                            \<lparr>VulnerabilityScan.ID := 1, Status := ''completed'', Report := ''{}'',
                             Summary := ''{}'', ScannedAt := 2\<rparr>],
             ticks = 3\<rparr>"
    by (simp add: processJob_def callNow_def callSaveScan_def callScanImage_def SaveScan_def stmt_def
        idleWorker_def failingDB_def scanningRecord_def appJob_def countingScanner_def nextScanID_def
        split_beta Let_def)
  from failed_save_skips_scan [where clock = int and w = idleWorker and job = "appJob ''v1''"
      and ScanImage = countingScanner and jobs = "[appJob ''v2'']", OF f] f n
  show ?thesis by (simp add: idleWorker_def failingDB_def SaveScan_def stmt_def)
qed

lemma evaluateRules_cong:
  assumes "KeepLastCount p = KeepLastCount q" and "KeepDays p = KeepDays q"
  shows "evaluateRules p now i im = evaluateRules q now i im"
  unfolding evaluateRules_def ruleKeepLastCount_def ruleKeepDays_def ruleNoPolicy_def assms
  by (rule refl)

lemma pass1_cong:
  assumes "KeepLastCount p = KeepLastCount q" and "KeepDays p = KeepDays q"
  shows "pass1 p now i images keptDigests decisions = pass1 q now i images keptDigests decisions"
  by (induction images arbitrary: i keptDigests decisions)
     (simp_all add: evaluateRules_cong [OF assms])

lemma executeAction_cong:
  assumes "DryRun p = DryRun q"
  shows "executeAction client p repoName keptDigests d w = executeAction client q repoName keptDigests d w"
  unfolding executeAction_def assms by (rule refl)

lemma pass2_cong:
  assumes "DryRun p = DryRun q"
  shows "pass2 client p repoName keptDigests decisions logs w =
         pass2 client q repoName keptDigests decisions logs w"
  by (induction decisions arbitrary: logs w) (simp_all add: executeAction_cong [OF assms] split_beta)

lemma decideAndAct_cong:
  assumes "KeepLastCount p = KeepLastCount q" and "KeepDays p = KeepDays q" and "DryRun p = DryRun q"
  shows "decideAndAct client p now repoName images w = decideAndAct client q now repoName images w"
  by (simp add: decideAndAct_def pass1_cong [OF assms(1,2)] pass2_cong [OF assms(3)])

lemma processRepository_cong:
  assumes "KeepLastCount p = KeepLastCount q" and "KeepDays p = KeepDays q" and "DryRun p = DryRun q"
    and "compileOrNil rx (ExcludeTags p) = compileOrNil rx (ExcludeTags q)"
  shows "processRepository client rx p now repoName w res = processRepository client rx q now repoName w res"
  by (simp add: processRepository_def processTags_def decideAndAct_cong [OF assms(1-3)] assms(4)
      split: sum.splits)

lemma retentionLoop_cong_imp:
  assumes "retentionLoop client rx p f e repos logs w res"
    and "\<And>now repoName w res.
           processRepository client rx p now repoName w res = processRepository client rx q now repoName w res"
  shows "retentionLoop client rx q f e repos logs w res"
  using assms(1)
proof (induction rule: retentionLoop.induct)
  case (loop_done logs w)
  show ?case by (rule retentionLoop.loop_done)
next
  case (loop_skip repo repos logs w res)
  then show ?case by (intro retentionLoop.loop_skip)
next
  case (loop_error repo now w err w' repos logs res)
  from loop_error.hyps(2) have "processRepository client rx q now repo w (Inl err, w')"
    by (simp add: assms(2))
  with loop_error.hyps(1) loop_error.IH show ?case by (intro retentionLoop.loop_error)
next
  case (loop_logs repo now w repoLogs w' repos logs res)
  from loop_logs.hyps(2) have "processRepository client rx q now repo w (Inr repoLogs, w')"
    by (simp add: assms(2))
  with loop_logs.hyps(1) loop_logs.IH show ?case by (intro retentionLoop.loop_logs)
qed

lemma RunRetention_cong:
  assumes "KeepLastCount p = KeepLastCount q" and "KeepDays p = KeepDays q" and "DryRun p = DryRun q"
    and "compileOrNil rx (ExcludeTags p) = compileOrNil rx (ExcludeTags q)"
    and "compileOrNil rx (RetentionPolicy.FilterRepos p) = compileOrNil rx (RetentionPolicy.FilterRepos q)"
    and "compileOrNil rx (ExcludeRepos p) = compileOrNil rx (ExcludeRepos q)"
  shows "RunRetention client rx p w res = RunRetention client rx q w res"
proof -
  have pq: "processRepository client rx p now repoName w res =
            processRepository client rx q now repoName w res" for now repoName w res
    by (rule processRepository_cong [OF assms(1-4)])
  have "retentionLoop client rx p f e repos logs w res = retentionLoop client rx q f e repos logs w res"
    for f e repos logs w res
    using retentionLoop_cong_imp [of client rx p f e repos logs w res q]
      retentionLoop_cong_imp [of client rx q f e repos logs w res p] pq
    by blast
  then show ?thesis
    by (simp add: RunRetention_def assms(5,6) split: sum.splits)
qed

lemma compileOrNil_invalid: "isl (Compile rx pat) \<Longrightarrow> compileOrNil rx pat = compileOrNil rx []"
  by (auto simp add: compileOrNil_def split: sum.splits)

text \<open>
  Claim C7, amended. In the retention engine a pattern \<open>FilterRepos\<close>, \<open>ExcludeRepos\<close> or
  \<open>ExcludeTags\<close> that does not compile is not fatal: the run has exactly the results it has
  with that field empty. In the dispatch of the scan scheduler a non-empty \<open>FilterRepos\<close>
  that does not compile ends \<^verbatim>\<open>triggerPolicy\<close> with the logged error: no job is sent.
\<close>

theorem invalid_pattern_handling:
  "(isl (Compile rx (RetentionPolicy.FilterRepos policy)) \<longrightarrow>
      RunRetention client rx policy w res =
      RunRetention client rx (policy\<lparr>RetentionPolicy.FilterRepos := []\<rparr>) w res) \<and>
   (isl (Compile rx (ExcludeRepos policy)) \<longrightarrow>
      RunRetention client rx policy w res =
      RunRetention client rx (policy\<lparr>ExcludeRepos := []\<rparr>) w res) \<and>
   (isl (Compile rx (ExcludeTags policy)) \<longrightarrow>
      RunRetention client rx policy w res =
      RunRetention client rx (policy\<lparr>ExcludeTags := []\<rparr>) w res) \<and>
   (ScanPolicy.FilterRepos p \<noteq> [] \<and> isl (Compile rx (ScanPolicy.FilterRepos p)) \<longrightarrow>
      isl (fst (triggerPolicy NewClient rx accept s d p)) \<and>
      fst (snd (triggerPolicy NewClient rx accept s d p)) = [])"
proof (intro conjI impI)
  assume "isl (Compile rx (RetentionPolicy.FilterRepos policy))"
  then show "RunRetention client rx policy w res =
      RunRetention client rx (policy\<lparr>RetentionPolicy.FilterRepos := []\<rparr>) w res"
    by (intro RunRetention_cong) (simp_all add: compileOrNil_invalid)
next
  assume "isl (Compile rx (ExcludeRepos policy))"
  then show "RunRetention client rx policy w res =
      RunRetention client rx (policy\<lparr>ExcludeRepos := []\<rparr>) w res"
    by (intro RunRetention_cong) (simp_all add: compileOrNil_invalid)
next
  assume "isl (Compile rx (ExcludeTags policy))"
  then show "RunRetention client rx policy w res =
      RunRetention client rx (policy\<lparr>ExcludeTags := []\<rparr>) w res"
    by (intro RunRetention_cong) (simp_all add: compileOrNil_invalid)
next
  assume h: "ScanPolicy.FilterRepos p \<noteq> [] \<and> isl (Compile rx (ScanPolicy.FilterRepos p))"
  then show "isl (fst (triggerPolicy NewClient rx accept s d p))"
    by (auto simp add: triggerPolicy_def Let_def split: prod.splits sum.splits)
  from h show "fst (snd (triggerPolicy NewClient rx accept s d p)) = []"
    by (auto simp add: triggerPolicy_def Let_def split: prod.splits sum.splits)
qed

text \<open>
  Claim C7 as stated fails for the scheduler: with the pattern \<^verbatim>\<open>(\<close>, which does not
  compile, \<^verbatim>\<open>triggerPolicy\<close> sends no job, while with the empty pattern it sends a job for
  each of the two tags.
\<close>

theorem invalid_scan_filter_counterexample:
  "isl (Compile substringRegexp ''('') \<and>
   triggerPolicy memNewClient substringRegexp alwaysAccept (registry twoTags) oneRegistry (scanEvery 24 ''('') \<noteq>
   triggerPolicy memNewClient substringRegexp alwaysAccept (registry twoTags) oneRegistry (scanEvery 24 []) \<and>
   triggerPolicy memNewClient substringRegexp alwaysAccept (registry twoTags) oneRegistry (scanEvery 24 ''('') =
     (Inl ''Scheduler: Invalid filter regex: error parsing regexp: missing closing )'', [], oneRegistry) \<and>
   triggerPolicy memNewClient substringRegexp alwaysAccept (registry twoTags) oneRegistry (scanEvery 24 []) =
     (Inr 2,
      [\<lparr>RegistryURL = ''http://registry:5000'', ScanJob.RegistryID = 1, Repo = ''app'', ScanJob.Tag = ''v2''\<rparr>,
       \<lparr>RegistryURL = ''http://registry:5000'', ScanJob.RegistryID = 1, Repo = ''app'', ScanJob.Tag = ''v1''\<rparr>],
      oneRegistry)"
  by (simp add: triggerPolicy_def GetRegistry_def stmt_def oneRegistry_def scanEvery_def substringRegexp_def
      memNewClient_def memClient_def twoTags_def alwaysAccept_def)

theorem invalid_pattern_handling_witness:
  "isl (Compile substringRegexp ''('') \<and>
   RunRetention memClient substringRegexp (noRules\<lparr>RetentionPolicy.FilterRepos := ''(''\<rparr>) twoTags
     (Inr [\<lparr>RetentionLog.Repository = ''app'', RetentionLog.Tag = ''v2'', RetentionLog.Digest = ''sha256:b'',
            RetentionLog.Created = 200, Action = ''kept'', Reason = ''no policy set''\<rparr>,
           \<lparr>RetentionLog.Repository = ''app'', RetentionLog.Tag = ''v1'', RetentionLog.Digest = ''sha256:a'',
            RetentionLog.Created = 100, Action = ''kept'', Reason = ''no policy set''\<rparr>], twoTags) \<and>
   RunRetention memClient substringRegexp (noRules\<lparr>ExcludeRepos := ''(''\<rparr>) twoTags
     (Inr [\<lparr>RetentionLog.Repository = ''app'', RetentionLog.Tag = ''v2'', RetentionLog.Digest = ''sha256:b'',
            RetentionLog.Created = 200, Action = ''kept'', Reason = ''no policy set''\<rparr>,
           \<lparr>RetentionLog.Repository = ''app'', RetentionLog.Tag = ''v1'', RetentionLog.Digest = ''sha256:a'',
            RetentionLog.Created = 100, Action = ''kept'', Reason = ''no policy set''\<rparr>], twoTags) \<and>
   RunRetention memClient substringRegexp (noRules\<lparr>ExcludeTags := ''(''\<rparr>) twoTags
     (Inr [\<lparr>RetentionLog.Repository = ''app'', RetentionLog.Tag = ''v2'', RetentionLog.Digest = ''sha256:b'',
            RetentionLog.Created = 200, Action = ''kept'', Reason = ''no policy set''\<rparr>,
           \<lparr>RetentionLog.Repository = ''app'', RetentionLog.Tag = ''v1'', RetentionLog.Digest = ''sha256:a'',
            RetentionLog.Created = 100, Action = ''kept'', Reason = ''no policy set''\<rparr>], twoTags) \<and>
   ScanPolicy.FilterRepos (scanEvery 24 ''('') \<noteq> [] \<and>
   isl (fst (triggerPolicy memNewClient substringRegexp alwaysAccept (registry twoTags) oneRegistry
          (scanEvery 24 ''(''))) \<and>
   fst (snd (triggerPolicy memNewClient substringRegexp alwaysAccept (registry twoTags) oneRegistry
          (scanEvery 24 ''(''))) = []"
proof -
  let ?res = "(Inr [\<lparr>RetentionLog.Repository = ''app'', RetentionLog.Tag = ''v2'', RetentionLog.Digest = ''sha256:b'',
            RetentionLog.Created = 200, Action = ''kept'', Reason = ''no policy set''\<rparr>,
           \<lparr>RetentionLog.Repository = ''app'', RetentionLog.Tag = ''v1'', RetentionLog.Digest = ''sha256:a'',
            RetentionLog.Created = 100, Action = ''kept'', Reason = ''no policy set''\<rparr>], twoTags)"
  have bad: "isl (Compile substringRegexp ''('')"
    by (simp add: substringRegexp_def)
  have e: "noRules\<lparr>RetentionPolicy.FilterRepos := []\<rparr> = noRules" "noRules\<lparr>ExcludeRepos := []\<rparr> = noRules"
    "noRules\<lparr>ExcludeTags := []\<rparr> = noRules"
    by (simp_all add: noRules_def)
  have s: "ScanPolicy.FilterRepos (scanEvery 24 ''('') \<noteq> []" "ScanPolicy.FilterRepos (scanEvery 24 ''('') = ''(''"
    by (simp_all add: scanEvery_def)
  from invalid_pattern_handling [where rx = substringRegexp
      and policy = "noRules\<lparr>RetentionPolicy.FilterRepos := ''(''\<rparr>" and client = memClient
      and w = twoTags and res = ?res and p = "scanEvery 24 ''(''" and NewClient = memNewClient
      and accept = alwaysAccept and s = "registry twoTags" and d = oneRegistry]
    invalid_pattern_handling [where rx = substringRegexp
      and policy = "noRules\<lparr>ExcludeRepos := ''(''\<rparr>" and client = memClient
      and w = twoTags and res = ?res and p = "scanEvery 24 ''(''" and NewClient = memNewClient
      and accept = alwaysAccept and s = "registry twoTags" and d = oneRegistry]
    invalid_pattern_handling [where rx = substringRegexp
      and policy = "noRules\<lparr>ExcludeTags := ''(''\<rparr>" and client = memClient
      and w = twoTags and res = ?res and p = "scanEvery 24 ''(''" and NewClient = memNewClient
      and accept = alwaysAccept and s = "registry twoTags" and d = oneRegistry]
    bad e s noRules_run
  show ?thesis by simp
qed

section \<open>Properties of the scan scheduler\<close>

lemma wrap64_overflow: "wrap64 (2562048 * Hour) = - 9223371273709551616"
  by (simp add: wrap64_def Hour_def)

text \<open>
  Claim C6 fails on the code for a large interval. \<^verbatim>\<open>time.Duration(interval) * time.Hour\<close>
  is a 64-bit product: for \<open>IntervalHours = 2562048\<close> it wraps to a negative duration, the
  \<open>NextRunAt\<close> that \<^verbatim>\<open>checkSchedules\<close> stores lies before \<open>now\<close>, and a second call at the
  same \<open>now\<close> starts \<^verbatim>\<open>triggerPolicy\<close> for the policy again.
\<close>

theorem interval_overflow_retriggers:
  "nextRun tickTime (scanEvery 2562048 []) = tickTime - 9223371273709551616 \<and>
   checkSchedules tickTime (scheduled (scanEvery 2562048 [])) =
     ([UpdateRunTime 1 tickTime (tickTime - 9223371273709551616), GoTriggerPolicy (scanEvery 2562048 [])],
      scheduled ((scanEvery 2562048 [])\<lparr>LastRunAt := tickTime,
                   NextRunAt := tickTime - 9223371273709551616\<rparr>)) \<and>
   checkSchedules tickTime
     (scheduled ((scanEvery 2562048 [])\<lparr>LastRunAt := tickTime,
                   NextRunAt := tickTime - 9223371273709551616\<rparr>)) =
     ([UpdateRunTime 1 tickTime (tickTime - 9223371273709551616),
       GoTriggerPolicy ((scanEvery 2562048 [])\<lparr>LastRunAt := tickTime,
                   NextRunAt := tickTime - 9223371273709551616\<rparr>)],
      scheduled ((scanEvery 2562048 [])\<lparr>LastRunAt := tickTime,
                   NextRunAt := tickTime - 9223371273709551616\<rparr>))"
  by (simp add: checkSchedules_def ListEnabledScanPolicies_def UpdatePolicyRunTime_def stmt_def
      scheduled_def oneRegistry_def scanEvery_def due_def IsZero_def After_def nextRun_def Add_def
      wrap64_overflow tickTime_def)

text \<open>With an interval of 24 hours the second call starts nothing.\<close>

lemma interval_in_range_not_retriggered:
  "checkSchedules tickTime (scheduled (scanEvery 24 [])) =
     ([UpdateRunTime 1 tickTime (tickTime + 86400000000000), GoTriggerPolicy (scanEvery 24 [])],
      scheduled ((scanEvery 24 [])\<lparr>LastRunAt := tickTime, NextRunAt := tickTime + 86400000000000\<rparr>)) \<and>
   checkSchedules tickTime
     (scheduled ((scanEvery 24 [])\<lparr>LastRunAt := tickTime, NextRunAt := tickTime + 86400000000000\<rparr>)) =
     ([], scheduled ((scanEvery 24 [])\<lparr>LastRunAt := tickTime, NextRunAt := tickTime + 86400000000000\<rparr>))"
  by (simp add: checkSchedules_def ListEnabledScanPolicies_def UpdatePolicyRunTime_def stmt_def
      scheduled_def oneRegistry_def scanEvery_def due_def IsZero_def After_def nextRun_def Add_def
      wrap64_def Hour_def tickTime_def)

section \<open>The keep-days rule and float64 rounding\<close>

lemma days_of_values:
  "days_of 14774399999999999 = 171" "days_of 518400000000000 = 6" "days_of 691200000000000 = 8"
  by code_simp+

lemma Sub_tickTime:
  "Sub tickTime (tickTime - 14774399999999999) = 14774399999999999"
  "Sub tickTime (tickTime - 518400000000000) = 518400000000000"
  "Sub tickTime (tickTime - 691200000000000) = 691200000000000"
  by (simp_all add: Sub_def minDuration_def maxDuration_def)

text \<open>
  Claim C5 fails on the code next to the boundary. For an age of 171 days less one
  nanosecond, \<^verbatim>\<open>age.Hours()\<close> adds 4103 and a fraction just below 1; the sum is rounded to
  the float64 4104, so \<^verbatim>\<open>days\<close> is 171 and, with \<open>KeepDays = 171\<close>, the rule does not keep
  an image that is newer than 171 days.
\<close>

theorem keep_days_rounding_drops_newer_image:
  "Sub tickTime (tickTime - 14774399999999999) = 171 * (24 * Hour) - 1 \<and>
   Sub tickTime (tickTime - 14774399999999999) < 171 * (24 * Hour) \<and>
   days_of (Sub tickTime (tickTime - 14774399999999999)) = 171 \<and>
   ruleKeepDays (keepDaysOnly 171) tickTime (mkImage ''v1'' ''sha256:a'' (tickTime - 14774399999999999))
     (False, ''default keep'') = (False, ''default keep'') \<and>
   evaluateRules (keepDaysOnly 171) tickTime 0 (mkImage ''v1'' ''sha256:a'' (tickTime - 14774399999999999)) =
     \<lparr>img = mkImage ''v1'' ''sha256:a'' (tickTime - 14774399999999999), keep = False,
      reason = ''default keep''\<rparr>"
  by (simp add: Sub_tickTime days_of_values evaluateRules_def ruleKeepLastCount_def ruleKeepDays_def
      ruleWhitelist_def ruleNoPolicy_def keepDaysOnly_def mkImage_def Hour_def)

text \<open>The two instances that the claim names hold: 6 days is kept, 8 days is not.\<close>

lemma keep_days_seven:
  "keep (evaluateRules (keepDaysOnly 7) tickTime 0 (mkImage ''v1'' ''sha256:a'' (tickTime - 6 * (24 * Hour)))) \<and>
   \<not> keep (evaluateRules (keepDaysOnly 7) tickTime 0 (mkImage ''v1'' ''sha256:a'' (tickTime - 8 * (24 * Hour))))"
  by (simp add: Sub_tickTime days_of_values evaluateRules_def ruleKeepLastCount_def ruleKeepDays_def
      ruleWhitelist_def ruleNoPolicy_def keepDaysOnly_def mkImage_def Hour_def)

text \<open>
  The value of \<^verbatim>\<open>count\<close> that \<^verbatim>\<open>triggerPolicy\<close> logs is the number of jobs that the channel
  took: a \<^verbatim>\<open>select\<close> that gives up does not count.
\<close>

lemma enqueueTags_count:
  "fst st = int (length (fst (snd st))) \<Longrightarrow>
   fst (enqueueTags accept reg repoName tags st) =
     int (length (fst (snd (enqueueTags accept reg repoName tags st))))"
proof (induction tags arbitrary: st)
  case Nil
  then show ?case by simp
next
  case (Cons tag tags)
  obtain cnt sent n where st: "st = (cnt, sent, n)" by (cases st) auto
  with Cons.prems have "cnt = int (length sent)" by simp
  then show ?case unfolding st by (simp add: Cons.IH)
qed

lemma dispatchRepos_count:
  "fst st = int (length (fst (snd st))) \<Longrightarrow>
   fst (dispatchRepos client rx accept s reg filterRe repos st) =
     int (length (fst (snd (dispatchRepos client rx accept s reg filterRe repos st))))"
proof (induction repos arbitrary: st)
  case Nil
  then show ?case by simp
next
  case (Cons repoName repos)
  then show ?case by (simp add: enqueueTags_count split: sum.splits)
qed

lemma dispatchRepos_start:
  "dispatchRepos client rx accept s reg filterRe repos (0, [], 0) = (cnt, sent, n) \<Longrightarrow>
   cnt = int (length sent)"
  using dispatchRepos_count [of "(0, [], 0)" client rx accept s reg filterRe repos] by simp

lemma triggerPolicy_count:
  assumes "triggerPolicy NewClient rx accept s d p = (Inr cnt, sent, d')"
  shows "cnt = int (length sent)"
  using assms
  by (auto simp add: triggerPolicy_def Let_def split: prod.splits sum.splits if_splits
      dest: dispatchRepos_start)

text \<open>
  What \<^verbatim>\<open>checkSchedules\<close> does when the database works and no interval overflows: it writes
  the run times of every enabled policy that is due and then starts its goroutine, and a
  second call with the same clock reading starts nothing.
\<close>

lemma schedulePolicies_events:
  "fst (schedulePolicies now policies events d) =
     events @ concat (map (\<lambda>p. [UpdateRunTime (ScanPolicy.ID p) now (nextRun now p), GoTriggerPolicy p])
                        (filter (due now) policies))"
  by (induction policies arbitrary: events d) (simp_all add: split_beta Let_def)

lemma wrap64_in_range:
  "- 9223372036854775808 \<le> x \<Longrightarrow> x \<le> 9223372036854775807 \<Longrightarrow> wrap64 x = x"
  by (simp add: wrap64_def)

lemma nextRun_later:
  assumes "IntervalHours p \<le> 2562047"
  shows "now < nextRun now p"
proof -
  let ?i = "if IntervalHours p < 1 then 24 else IntervalHours p"
  have "1 \<le> ?i" and "?i \<le> 2562047" using assms by auto
  then have "0 < ?i * Hour" and "?i * Hour \<le> 2562047 * Hour"
    by (simp_all add: Hour_def)
  then have "wrap64 (?i * Hour) = ?i * Hour" and "0 < ?i * Hour"
    by (simp_all add: wrap64_in_range Hour_def)
  then show ?thesis by (simp add: nextRun_def Let_def Add_def)
qed

lemma UpdatePolicyRunTime_ok:
  "failures d = [] \<Longrightarrow>
   snd (UpdatePolicyRunTime d policyID lastRun next) =
     d\<lparr>scan_policies :=
         map (\<lambda>p. if ScanPolicy.ID p = policyID then p\<lparr>LastRunAt := lastRun, NextRunAt := next\<rparr> else p)
           (scan_policies d)\<rparr>"
  by (simp add: UpdatePolicyRunTime_def stmt_def)

lemma schedulePolicies_rows:
  assumes "failures d = []" and "0 < now"
    and "\<forall>p \<in> set policies. IntervalHours p \<le> 2562047"
  shows "\<exists>f. scan_policies (snd (schedulePolicies now policies events d)) = map f (scan_policies d) \<and>
             failures (snd (schedulePolicies now policies events d)) = [] \<and>
             (\<forall>r. ScanPolicy.ID (f r) = ScanPolicy.ID r \<and> Enabled (f r) = Enabled r \<and>
                  (\<not> due now r \<longrightarrow> \<not> due now (f r))) \<and>
             (\<forall>p \<in> set policies. due now p \<longrightarrow>
                  (\<forall>r. ScanPolicy.ID r = ScanPolicy.ID p \<longrightarrow> \<not> due now (f r)))"
  using assms
proof (induction policies arbitrary: events d)
  case Nil
  show ?case by (intro exI [of _ id]) (simp add: Nil.prems)
next
  case (Cons p policies)
  show ?case
  proof (cases "due now p")
    case False
    from Cons.IH [of d events] Cons.prems obtain f where
      f: "scan_policies (snd (schedulePolicies now policies events d)) = map f (scan_policies d)"
         "failures (snd (schedulePolicies now policies events d)) = []"
         "\<forall>r. ScanPolicy.ID (f r) = ScanPolicy.ID r \<and> Enabled (f r) = Enabled r \<and>
                  (\<not> due now r \<longrightarrow> \<not> due now (f r))"
         "\<forall>p \<in> set policies. due now p \<longrightarrow>
                  (\<forall>r. ScanPolicy.ID r = ScanPolicy.ID p \<longrightarrow> \<not> due now (f r))"
      by auto
    with False show ?thesis by (intro exI [of _ f]) simp
  next
    case True
    let ?g = "\<lambda>r. if ScanPolicy.ID r = ScanPolicy.ID p
                  then r\<lparr>LastRunAt := now, NextRunAt := nextRun now p\<rparr> else r"
    let ?ev = "events @ [UpdateRunTime (ScanPolicy.ID p) now (nextRun now p), GoTriggerPolicy p]"
    define d1 where "d1 = snd (UpdatePolicyRunTime d (ScanPolicy.ID p) now (nextRun now p))"
    have "d1 = d\<lparr>scan_policies := map ?g (scan_policies d)\<rparr>"
      unfolding d1_def using Cons.prems(1) by (rule UpdatePolicyRunTime_ok)
    then have d1: "scan_policies d1 = map ?g (scan_policies d)" "failures d1 = []"
      using Cons.prems(1) by simp_all
    have later: "now < nextRun now p"
      using Cons.prems(3) by (intro nextRun_later) simp
    have g: "\<not> due now (r\<lparr>LastRunAt := now, NextRunAt := nextRun now p\<rparr>)" for r
      using later Cons.prems(2) by (simp add: due_def IsZero_def After_def)
    from Cons.IH [OF d1(2) Cons.prems(2), of ?ev] Cons.prems(3) obtain f where
      f: "scan_policies (snd (schedulePolicies now policies ?ev d1)) = map f (scan_policies d1)"
         "failures (snd (schedulePolicies now policies ?ev d1)) = []"
         "\<forall>r. ScanPolicy.ID (f r) = ScanPolicy.ID r \<and> Enabled (f r) = Enabled r \<and>
                  (\<not> due now r \<longrightarrow> \<not> due now (f r))"
         "\<forall>q \<in> set policies. due now q \<longrightarrow>
                  (\<forall>r. ScanPolicy.ID r = ScanPolicy.ID q \<longrightarrow> \<not> due now (f r))"
      by auto
    have step: "schedulePolicies now (p # policies) events d = schedulePolicies now policies ?ev d1"
      using True by (simp add: split_beta Let_def d1_def)
    show ?thesis
    proof (intro exI [of _ "f \<circ> ?g"] conjI allI ballI impI)
      show "scan_policies (snd (schedulePolicies now (p # policies) events d)) =
              map (f \<circ> ?g) (scan_policies d)"
        unfolding step by (simp add: f(1) d1(1))
      show "failures (snd (schedulePolicies now (p # policies) events d)) = []"
        unfolding step by (simp add: f(2))
      show "ScanPolicy.ID ((f \<circ> ?g) r) = ScanPolicy.ID r" for r
        using f(3) by simp
      show "Enabled ((f \<circ> ?g) r) = Enabled r" for r
        using f(3) by simp
      show "\<not> due now ((f \<circ> ?g) r)" if "\<not> due now r" for r
        using that f(3) g by simp
      show "\<not> due now ((f \<circ> ?g) r)"
        if "q \<in> set (p # policies)" "due now q" "ScanPolicy.ID r = ScanPolicy.ID q" for q r
      proof (cases "ScanPolicy.ID r = ScanPolicy.ID p")
        case True
        then show ?thesis using f(3) g by simp
      next
        case False
        with that have "q \<in> set policies" by auto
        with that f(4) False show ?thesis by simp
      qed
    qed
  qed
qed

lemma checkSchedules_ok:
  "failures d = [] \<Longrightarrow>
   checkSchedules now d = schedulePolicies now (filter Enabled (scan_policies d)) [] d"
  by (simp add: checkSchedules_def ListEnabledScanPolicies_def stmt_def)

lemma second_tick_starts_nothing:
  assumes "failures d = []" and "0 < now"
    and "\<forall>p \<in> set (scan_policies d). IntervalHours p \<le> 2562047"
  shows "fst (checkSchedules now (snd (checkSchedules now d))) = []"
proof -
  let ?ps = "filter Enabled (scan_policies d)"
  let ?d' = "snd (schedulePolicies now ?ps [] d)"
  have first: "snd (checkSchedules now d) = ?d'"
    using assms(1) by (simp add: checkSchedules_ok)
  from schedulePolicies_rows [OF assms(1,2), of ?ps "[]"] assms(3) obtain f where
    f: "scan_policies ?d' = map f (scan_policies d)" "failures ?d' = []"
       "\<forall>r. ScanPolicy.ID (f r) = ScanPolicy.ID r \<and> Enabled (f r) = Enabled r \<and>
                  (\<not> due now r \<longrightarrow> \<not> due now (f r))"
       "\<forall>p \<in> set ?ps. due now p \<longrightarrow>
                  (\<forall>r. ScanPolicy.ID r = ScanPolicy.ID p \<longrightarrow> \<not> due now (f r))"
    by auto
  have "\<not> due now r'" if "r' \<in> set (filter Enabled (scan_policies ?d'))" for r'
  proof -
    from that f(1) obtain r where r: "r \<in> set (scan_policies d)" "r' = f r" "Enabled (f r)"
      by auto
    then have "r \<in> set ?ps" using f(3) by simp
    then show ?thesis using f(3,4) r(2) by (cases "due now r") auto
  qed
  then have "filter (due now) (filter Enabled (scan_policies ?d')) = []"
    by (auto simp add: filter_empty_conv)
  then show ?thesis
    using f(2) by (simp add: first checkSchedules_ok schedulePolicies_events)
qed

lemma first_tick_events:
  "failures d = [] \<Longrightarrow>
   fst (checkSchedules now d) =
     concat (map (\<lambda>p. [UpdateRunTime (ScanPolicy.ID p) now (nextRun now p), GoTriggerPolicy p])
               (filter (due now) (filter Enabled (scan_policies d))))"
  by (simp add: checkSchedules_ok schedulePolicies_events)

section \<open>Rounding to float64 is monotone and exact on 53-bit significands\<close>

lemma round_even_of_int: "round_even (of_int n) = n"
  by (simp add: round_even_def)

lemma round_even_cases:
  "round_even x = \<lfloor>x\<rfloor> \<or> round_even x = \<lfloor>x\<rfloor> + 1"
  by (simp add: round_even_def Let_def)

lemma round_even_up:
  "round_even x = \<lfloor>x\<rfloor> + 1 \<longleftrightarrow>
     1 / 2 < x - of_int \<lfloor>x\<rfloor> \<or> (x - of_int \<lfloor>x\<rfloor> = 1 / 2 \<and> odd \<lfloor>x\<rfloor>)"
  by (auto simp add: round_even_def Let_def)

lemma round_even_mono:
  assumes "x \<le> y"
  shows "round_even x \<le> round_even y"
proof (cases "\<lfloor>x\<rfloor> = \<lfloor>y\<rfloor>")
  case False
  with assms have "\<lfloor>x\<rfloor> + 1 \<le> \<lfloor>y\<rfloor>"
    using floor_mono [OF assms] by linarith
  then show ?thesis
    using round_even_cases [of x] round_even_cases [of y] by linarith
next
  case True
  show ?thesis
  proof (cases "round_even x = \<lfloor>x\<rfloor> + 1")
    case False
    with round_even_cases [of x] have "round_even x = \<lfloor>x\<rfloor>" by simp
    then show ?thesis using True round_even_cases [of y] by linarith
  next
    case up: True
    then have "1 / 2 < x - of_int \<lfloor>x\<rfloor> \<or> (x - of_int \<lfloor>x\<rfloor> = 1 / 2 \<and> odd \<lfloor>x\<rfloor>)"
      by (simp only: round_even_up)
    with assms True
    have "1 / 2 < y - of_int \<lfloor>y\<rfloor> \<or> (y - of_int \<lfloor>y\<rfloor> = 1 / 2 \<and> odd \<lfloor>y\<rfloor>)"
      by auto
    then have "round_even y = \<lfloor>y\<rfloor> + 1" by (simp only: round_even_up)
    with up True show ?thesis by simp
  qed
qed

lemma round_even_minus: "round_even (- x) = - round_even x"
proof (cases "x = of_int \<lfloor>x\<rfloor>")
  case True
  then obtain n where "x = of_int n" ..
  then have "- x = of_int (- n)" by simp
  then show ?thesis using \<open>x = of_int n\<close> by (simp only: round_even_of_int)
next
  case False
  then have lt: "of_int \<lfloor>x\<rfloor> < x" using of_int_floor_le [of x] by linarith
  have fl: "\<lfloor>- x\<rfloor> = - \<lfloor>x\<rfloor> - 1"
    using lt by (intro floor_unique) (simp_all, linarith)
  show ?thesis
    unfolding round_even_def Let_def fl using lt
    by (auto simp add: algebra_simps)
qed

lemma two_powi_diff: "(2::rat) powi (int m - int n) = 2 ^ m / 2 ^ n"
  by (simp add: power_int_diff)

lemma bitlen_pos: "0 < (a::int) \<Longrightarrow> 1 \<le> bitlen a"
  using bitlen_le_iff_power [of a 0] by simp

lemma quotient_bounds:
  fixes a b :: int
  assumes "0 < a" and "0 < b"
  shows "(2::rat) powi (bitlen a - bitlen b - 1) \<le> of_int a / of_int b"
    and "(of_int a / of_int b :: rat) < 2 powi (bitlen a - bitlen b + 1)"
proof -
  define m where "m = nat (bitlen a - 1)"
  define n where "n = nat (bitlen b - 1)"
  have la: "bitlen a = int m + 1" and lb: "bitlen b = int n + 1"
    using bitlen_pos [OF assms(1)] bitlen_pos [OF assms(2)] by (simp_all add: m_def n_def)
  from bitlen_bounds [OF assms(1)] have a: "2 ^ m \<le> a" "a < 2 ^ (m + 1)"
    by (simp_all add: la nat_add_distrib)
  from bitlen_bounds [OF assms(2)] have b: "2 ^ n \<le> b" "b < 2 ^ (n + 1)"
    by (simp_all add: lb nat_add_distrib)
  have ar: "(2::rat) ^ m \<le> of_int a" "(of_int a :: rat) < 2 ^ (m + 1)"
    using a by (metis of_int_le_iff of_int_numeral of_int_power, metis of_int_less_iff of_int_numeral of_int_power)
  have br: "(2::rat) ^ n \<le> of_int b" "(of_int b :: rat) < 2 ^ (n + 1)"
    using b by (metis of_int_le_iff of_int_numeral of_int_power, metis of_int_less_iff of_int_numeral of_int_power)
  have bpos: "(0::rat) < of_int b" using assms(2) by simp
  have "bitlen a - bitlen b - 1 = int m - int (n + 1)" by (simp add: la lb)
  then have "(2::rat) powi (bitlen a - bitlen b - 1) = 2 ^ m / 2 ^ (n + 1)"
    by (simp only: two_powi_diff)
  also have "\<dots> \<le> of_int a / 2 ^ (n + 1)"
    using ar(1) by (simp add: divide_right_mono)
  also have "\<dots> \<le> of_int a / of_int b"
    using br(2) bpos assms(1) by (intro divide_left_mono) simp_all
  finally show "(2::rat) powi (bitlen a - bitlen b - 1) \<le> of_int a / of_int b" .
  have "(of_int a / of_int b :: rat) \<le> of_int a / 2 ^ n"
    using br(1) bpos assms(1) by (intro divide_left_mono) simp_all
  also have "\<dots> < 2 ^ (m + 1) / 2 ^ n"
    using ar(2) by (simp add: divide_strict_right_mono)
  also have "\<dots> = 2 powi (bitlen a - bitlen b + 1)"
  proof -
    have "bitlen a - bitlen b + 1 = int (m + 1) - int n" by (simp add: la lb)
    then show ?thesis by (simp only: two_powi_diff)
  qed
  finally show "(of_int a / of_int b :: rat) < 2 powi (bitlen a - bitlen b + 1)" .
qed

lemma expo_bounds:
  assumes "x \<noteq> 0"
  shows "2 powi expo x \<le> \<bar>x\<bar>" and "\<bar>x\<bar> < 2 powi (expo x + 1)"
proof -
  obtain a b where q: "quotient_of \<bar>x\<bar> = (a, b)" by force
  then have b: "0 < b" by (rule quotient_of_denom_pos)
  from q have x: "\<bar>x\<bar> = of_int a / of_int b" by (rule quotient_of_div)
  have "0 < \<bar>x\<bar>" using assms by simp
  with x b have a: "0 < a" by (simp add: zero_less_divide_iff)
  let ?k = "bitlen a - bitlen b"
  have lo: "2 powi (?k - 1) \<le> \<bar>x\<bar>" and hi: "\<bar>x\<bar> < 2 powi (?k + 1)"
    using quotient_bounds [OF a b] by (simp_all add: x)
  have e: "expo x = (if 2 powi ?k \<le> \<bar>x\<bar> then ?k else ?k - 1)"
    by (simp add: expo_def q)
  show "2 powi expo x \<le> \<bar>x\<bar>" using lo by (simp add: e)
  show "\<bar>x\<bar> < 2 powi (expo x + 1)" using hi by (auto simp add: e not_le)
qed

lemma expo_unique:
  assumes "2 powi e \<le> \<bar>x\<bar>" and "\<bar>x\<bar> < 2 powi (e + 1)"
  shows "expo x = e"
proof -
  have "(0::rat) < 2 powi e" by simp
  with assms(1) have "0 < \<bar>x\<bar>" by linarith
  then have nz: "x \<noteq> 0" by simp
  from expo_bounds [OF nz] assms
  have "(2::rat) powi e < 2 powi (expo x + 1)" and "(2::rat) powi expo x < 2 powi (e + 1)"
    by linarith+
  then have "\<not> expo x + 1 \<le> e" and "\<not> e + 1 \<le> expo x"
    using power_int_increasing [of "expo x + 1" e "2::rat"] power_int_increasing [of "e + 1" "expo x" "2::rat"]
    by auto
  then show ?thesis by simp
qed

lemma expo_minus: "expo (- x) = expo x"
  by (simp add: expo_def)

lemma float64_minus: "float64 (- x) = - float64 x"
  by (simp add: float64_def expo_minus round_even_minus)

lemma powi_split:
  "(2::rat) powi e = 2 ^ 52 * 2 powi (e - 52)" "(2::rat) powi (e + 1) = 2 ^ 53 * 2 powi (e - 52)"
proof -
  have "(2::rat) powi (52 + (e - 52)) = 2 powi 52 * 2 powi (e - 52)"
    by (rule power_int_add) simp
  moreover have "52 + (e - 52) = e" by simp
  ultimately show "(2::rat) powi e = 2 ^ 52 * 2 powi (e - 52)" by simp
  have "(2::rat) powi (53 + (e - 52)) = 2 powi 53 * 2 powi (e - 52)"
    by (rule power_int_add) simp
  moreover have "53 + (e - 52) = e + 1" by simp
  ultimately show "(2::rat) powi (e + 1) = 2 ^ 53 * 2 powi (e - 52)" by simp
qed

lemma float64_scaled:
  assumes "0 < x"
  shows "2 ^ 52 \<le> x / 2 powi (expo x - 52)" and "x / 2 powi (expo x - 52) \<le> 2 ^ 53"
proof -
  have nz: "x \<noteq> 0" using assms by simp
  have u: "(0::rat) < 2 powi (expo x - 52)" by simp
  have lo: "2 powi expo x \<le> x" and hi: "x < 2 powi (expo x + 1)"
    using expo_bounds [OF nz] assms by simp_all
  from lo have "2 ^ 52 * 2 powi (expo x - 52) \<le> x"
    by (simp only: powi_split(1) [symmetric])
  then show "2 ^ 52 \<le> x / 2 powi (expo x - 52)"
    using u by (simp only: pos_le_divide_eq)
  from hi have "x \<le> 2 ^ 53 * 2 powi (expo x - 52)"
    by (simp only: powi_split(2) [symmetric])
  then show "x / 2 powi (expo x - 52) \<le> 2 ^ 53"
    using u by (simp only: pos_divide_le_eq)
qed

lemma float64_pos_range:
  assumes "0 < x"
  shows "2 powi expo x \<le> float64 x" and "float64 x \<le> 2 powi (expo x + 1)"
proof -
  let ?u = "(2::rat) powi (expo x - 52)"
  have u: "0 < ?u" by simp
  have f: "float64 x = of_int (round_even (x / ?u)) * ?u"
    using assms by (simp add: float64_def)
  from float64_scaled [OF assms] have "round_even (of_int (2 ^ 52)) \<le> round_even (x / ?u)"
    and "round_even (x / ?u) \<le> round_even (of_int (2 ^ 53))"
    by (intro round_even_mono; simp)+
  then have "(of_int (2 ^ 52) :: rat) \<le> of_int (round_even (x / ?u))"
    and "(of_int (round_even (x / ?u)) :: rat) \<le> of_int (2 ^ 53)"
    by (simp_all only: round_even_of_int of_int_le_iff)
  then have r: "(2 ^ 52 :: rat) \<le> of_int (round_even (x / ?u))"
    "(of_int (round_even (x / ?u)) :: rat) \<le> 2 ^ 53"
    by simp_all
  have "(2::rat) powi expo x = 2 ^ 52 * ?u" by (rule powi_split(1))
  also have "\<dots> \<le> of_int (round_even (x / ?u)) * ?u"
    using r(1) u by (intro mult_right_mono) simp_all
  finally show "2 powi expo x \<le> float64 x" by (simp only: f)
  have "of_int (round_even (x / ?u)) * ?u \<le> 2 ^ 53 * ?u"
    using r(2) u by (intro mult_right_mono) simp_all
  also have "\<dots> = 2 powi (expo x + 1)" by (rule powi_split(2) [symmetric])
  finally show "float64 x \<le> 2 powi (expo x + 1)" by (simp only: f)
qed

lemma float64_nonneg: "0 \<le> x \<Longrightarrow> 0 \<le> float64 x"
proof (cases "x = 0")
  case True
  then show ?thesis by (simp add: float64_def)
next
  case False
  assume "0 \<le> x"
  with False have "0 < x" by simp
  from float64_pos_range(1) [OF this] have "2 powi expo x \<le> float64 x" .
  moreover have "(0::rat) < 2 powi expo x" by simp
  ultimately show ?thesis by linarith
qed

lemma float64_mono_pos:
  assumes "0 < x" and "x \<le> y"
  shows "float64 x \<le> float64 y"
proof -
  have y: "0 < y" using assms by simp
  have nz: "x \<noteq> 0" "y \<noteq> 0" using assms by simp_all
  have "2 powi expo x \<le> x" using expo_bounds(1) [OF nz(1)] assms(1) by simp
  moreover have "y < 2 powi (expo y + 1)" using expo_bounds(2) [OF nz(2)] y by simp
  ultimately have "(2::rat) powi expo x < 2 powi (expo y + 1)" using assms(2) by linarith
  then have "\<not> expo y + 1 \<le> expo x"
    using power_int_increasing [of "expo y + 1" "expo x" "2::rat"] by auto
  then have le: "expo x \<le> expo y" by simp
  show ?thesis
  proof (cases "expo x = expo y")
    case True
    let ?u = "(2::rat) powi (expo x - 52)"
    have u: "0 < ?u" by simp
    have "x / ?u \<le> y / ?u" using assms(2) u by (simp add: divide_right_mono)
    then have "round_even (x / ?u) \<le> round_even (y / ?u)" by (rule round_even_mono)
    then have "(of_int (round_even (x / ?u)) :: rat) \<le> of_int (round_even (y / ?u))" by simp
    then have "of_int (round_even (x / ?u)) * ?u \<le> of_int (round_even (y / ?u)) * ?u"
      using u by (intro mult_right_mono) simp_all
    then show ?thesis using nz True by (simp add: float64_def)
  next
    case False
    with le have "expo x + 1 \<le> expo y" by simp
    then have "(2::rat) powi (expo x + 1) \<le> 2 powi expo y"
      by (intro power_int_increasing) simp_all
    with float64_pos_range(2) [OF assms(1)] float64_pos_range(1) [OF y] show ?thesis by linarith
  qed
qed

lemma float64_mono:
  assumes "x \<le> y"
  shows "float64 x \<le> float64 y"
proof -
  consider "0 < x" | "x \<le> 0" "0 \<le> y" | "y < 0" using assms by linarith
  then show ?thesis
  proof cases
    case 1
    then show ?thesis using assms by (rule float64_mono_pos)
  next
    case 2
    then have "0 \<le> float64 (- x)" and "0 \<le> float64 y" by (simp_all add: float64_nonneg)
    then show ?thesis by (simp add: float64_minus)
  next
    case 3
    then have "0 < - y" and "- y \<le> - x" using assms by simp_all
    then have "float64 (- y) \<le> float64 (- x)" by (rule float64_mono_pos)
    then show ?thesis by (simp add: float64_minus)
  qed
qed

lemma float64_exact:
  assumes "\<bar>n\<bar> < 2 ^ 53"
  shows "float64 (of_int n * 2 powi j) = of_int n * 2 powi j"
proof (cases "n = 0")
  case True
  then show ?thesis by (simp add: float64_def)
next
  case False
  let ?x = "of_int n * (2::rat) powi j"
  have nz: "?x \<noteq> 0" using False by simp
  have "\<bar>?x\<bar> = of_int \<bar>n\<bar> * 2 powi j" by (simp add: abs_mult)
  also have "\<dots> < 2 ^ 53 * 2 powi j"
  proof -
    have "(of_int \<bar>n\<bar> :: rat) < of_int (2 ^ 53)" using assms by (simp only: of_int_less_iff)
    then show ?thesis by (intro mult_strict_right_mono) simp_all
  qed
  also have "\<dots> = 2 powi (53 + j)"
    using power_int_add [of "2::rat" 53 j] by simp
  finally have "\<bar>?x\<bar> < 2 powi (53 + j)" .
  with expo_bounds(1) [OF nz] have "(2::rat) powi expo ?x < 2 powi (53 + j)" by linarith
  then have "\<not> 53 + j \<le> expo ?x"
    using power_int_increasing [of "53 + j" "expo ?x" "2::rat"] by auto
  then have k: "0 \<le> j - (expo ?x - 52)" by simp
  define u where "u = (2::rat) powi (expo ?x - 52)"
  define k where "k = nat (j - (expo ?x - 52))"
  have u: "u \<noteq> 0" by (simp add: u_def)
  have "int k + (expo ?x - 52) = j" using k by (simp add: k_def)
  moreover have "(2::rat) powi (int k + (expo ?x - 52)) = 2 powi (int k) * 2 powi (expo ?x - 52)"
    by (rule power_int_add) simp
  ultimately have pj: "(2::rat) powi j = 2 ^ k * u" by (simp add: u_def)
  have sc: "?x = of_int (n * 2 ^ k) * u" by (simp add: pj)
  have "of_int (n * 2 ^ k) * u / u = (of_int (n * 2 ^ k) :: rat)" using u by simp
  then have "?x / u = of_int (n * 2 ^ k)" by (simp only: sc [symmetric])
  then have "round_even (?x / u) = n * 2 ^ k"
    by (simp only: round_even_of_int)
  then have "float64 ?x = of_int (n * 2 ^ k) * u"
    using nz unfolding u_def by (simp only: float64_def if_False)
  also have "\<dots> = ?x" by (rule sc [symmetric])
  finally show ?thesis .
qed

lemma float64_of_int: "\<bar>n\<bar> < 2 ^ 53 \<Longrightarrow> float64 (of_int n) = of_int n"
  using float64_exact [of n 0] by simp

section \<open>The day count of an age\<close>

text \<open>
  \<^verbatim>\<open>age.Hours()\<close> lies between the whole hours of the age and the next whole hour. So
  \<^verbatim>\<open>days\<close> is at least \<open>k\<close> for an age of \<open>k\<close> days or more, and below \<open>k\<close> for an age of at
  most \<open>k\<close> days less one hour: the keep-days rule differs from the comparison of the age
  with \<open>KeepDays\<close> days only in the last hour before the boundary.
\<close>

lemma quot_rem_nonneg:
  "0 \<le> d \<Longrightarrow> quot d Hour = d div Hour \<and> rem d Hour = d mod Hour"
  by (simp add: quot_def rem_def Hour_def minus_mult_div_eq_mod)

lemma quot_rem_neg:
  "d < 0 \<Longrightarrow> quot d Hour \<le> 0 \<and> rem d Hour \<le> 0"
proof -
  assume d: "d < 0"
  have q: "quot d Hour = - (\<bar>d\<bar> div Hour)" using d by (simp add: quot_def Hour_def)
  have "0 \<le> \<bar>d\<bar> div Hour" by (simp add: Hour_def pos_imp_zdiv_nonneg_iff)
  moreover have "Hour * (\<bar>d\<bar> div Hour) \<le> \<bar>d\<bar>"
    by (simp add: Hour_def)
  ultimately show ?thesis using d by (simp add: q rem_def)
qed

lemma float64_zero: "float64 0 = 0"
  by (simp add: float64_def)

lemma float64_one: "float64 1 = 1"
  using float64_of_int [of 1] by simp

lemma float64_nonpos: "x \<le> 0 \<Longrightarrow> float64 x \<le> 0"
  using float64_mono [of x 0] by (simp add: float64_zero)

lemma float_to_int_nonpos: "x \<le> 0 \<Longrightarrow> float_to_int x \<le> 0"
  by (auto simp add: float_to_int_def ceiling_le_iff)

lemma Hours_nonpos:
  assumes "d < 0"
  shows "Hours d \<le> 0"
proof -
  from quot_rem_neg [OF assms] have q: "quot d Hour \<le> 0" and r: "rem d Hour \<le> 0" by simp_all
  have "float64 (of_int (quot d Hour)) \<le> 0" using q by (intro float64_nonpos) simp
  moreover have "float64 (float64 (of_int (rem d Hour)) / 3600000000000) \<le> 0"
  proof (intro float64_nonpos)
    have "float64 (of_int (rem d Hour)) \<le> 0" using r by (intro float64_nonpos) simp
    then show "float64 (of_int (rem d Hour)) / 3600000000000 \<le> 0"
      by (simp add: divide_le_0_iff)
  qed
  ultimately show ?thesis
    by (simp add: Hours_def Let_def float64_nonpos)
qed

lemma days_of_negative: "d < 0 \<Longrightarrow> days_of d \<le> 0"
proof -
  assume "d < 0"
  then have "Hours d / 24 \<le> 0" using Hours_nonpos [of d] by (simp add: divide_le_0_iff)
  then have "float64 (Hours d / 24) \<le> 0" by (rule float64_nonpos)
  then show ?thesis by (simp add: days_of_def float_to_int_nonpos)
qed

lemma Hours_bounds:
  assumes "0 \<le> d" and "d \<le> maxDuration"
  shows "of_int (d div Hour) \<le> Hours d"
    and "Hours d \<le> of_int (d div Hour + (if d mod Hour = 0 then 0 else 1))"
proof -
  let ?h = "d div Hour" and ?n = "d mod Hour"
  have h0: "0 \<le> ?h" using assms(1) by (simp add: Hour_def pos_imp_zdiv_nonneg_iff)
  have "?h \<le> maxDuration div Hour" using assms(2) by (simp add: Hour_def zdiv_mono1)
  then have h1: "?h \<le> 2562047" by (simp add: maxDuration_def Hour_def)
  have n: "0 \<le> ?n" "?n < Hour" by (simp_all add: Hour_def)
  have eh: "float64 (of_int ?h) = of_int ?h"
    using h0 h1 by (intro float64_of_int) simp
  have en: "float64 (of_int ?n) = of_int ?n"
    using n by (intro float64_of_int) (simp add: Hour_def)
  let ?q = "float64 (of_int ?n / 3600000000000)"
  have q0: "0 \<le> ?q" using n(1) by (intro float64_nonneg) simp
  have q1: "?q \<le> 1"
  proof -
    have "(of_int ?n :: rat) \<le> of_int Hour" using n(2) by simp
    then have "(of_int ?n :: rat) / 3600000000000 \<le> 1" by (simp add: Hour_def)
    then have "?q \<le> float64 1" by (rule float64_mono)
    then show ?thesis by (simp add: float64_one)
  qed
  have H: "Hours d = float64 (of_int ?h + ?q)"
    using quot_rem_nonneg [OF assms(1)] by (simp add: Hours_def Let_def eh en)
  have "float64 (of_int ?h) \<le> float64 (of_int ?h + ?q)"
    using q0 by (intro float64_mono) simp
  then show "of_int ?h \<le> Hours d" by (simp add: H eh)
  show "Hours d \<le> of_int (?h + (if ?n = 0 then 0 else 1))"
  proof (cases "?n = 0")
    case True
    then have "?q = 0" by (simp add: float64_zero)
    then show ?thesis using True by (simp add: H eh)
  next
    case False
    have "float64 (of_int ?h + ?q) \<le> float64 (of_int (?h + 1))"
      using q1 by (intro float64_mono) simp
    also have "\<dots> = of_int (?h + 1)"
      using h0 h1 by (intro float64_of_int) simp
    finally show ?thesis using False by (simp add: H)
  qed
qed

lemma days_of_lower:
  assumes "0 \<le> k" and "k * (24 * Hour) \<le> d" and "d \<le> maxDuration"
  shows "k \<le> days_of d"
proof -
  have d0: "0 \<le> d"
  proof -
    have "0 \<le> k * (24 * Hour)" using assms(1) by (simp add: Hour_def)
    with assms(2) show ?thesis by linarith
  qed
  have "(24 * k) * Hour div Hour \<le> d div Hour"
    using assms(2) by (intro zdiv_mono1) (simp_all add: Hour_def)
  then have h: "24 * k \<le> d div Hour" by (simp add: Hour_def)
  have "d div Hour \<le> maxDuration div Hour" using assms(3) by (simp add: Hour_def zdiv_mono1)
  then have "d div Hour \<le> 2562047" by (simp add: maxDuration_def Hour_def)
  with h assms(1) have k: "\<bar>k\<bar> < 2 ^ 53" by simp
  have "(of_int (24 * k) :: rat) \<le> of_int (d div Hour)" using h by (simp only: of_int_le_iff)
  also have "\<dots> \<le> Hours d" using d0 assms(3) by (rule Hours_bounds(1))
  finally have "(of_int k :: rat) \<le> Hours d / 24" by simp
  then have "float64 (of_int k) \<le> float64 (Hours d / 24)" by (rule float64_mono)
  then have x: "of_int k \<le> float64 (Hours d / 24)" by (simp only: float64_of_int [OF k])
  moreover have "(0::rat) \<le> of_int k" using assms(1) by simp
  ultimately have "0 \<le> float64 (Hours d / 24)" by linarith
  with x show ?thesis by (simp add: days_of_def float_to_int_def le_floor_iff)
qed

lemma days_of_upper:
  assumes "0 \<le> d" and "d \<le> (24 * k - 1) * Hour" and "d \<le> maxDuration"
  shows "days_of d < k"
proof -
  define T where "T = d div Hour + (if d mod Hour = 0 then 0 else 1)"
  define D where "D = T div 24"
  have h0: "0 \<le> d div Hour" using assms(1) by (simp add: Hour_def pos_imp_zdiv_nonneg_iff)
  have "d div Hour \<le> maxDuration div Hour" using assms(3) by (simp add: Hour_def zdiv_mono1)
  then have h1: "d div Hour \<le> 2562047" by (simp add: maxDuration_def Hour_def)
  have T0: "0 \<le> T" and T1: "T \<le> 2562048" using h0 h1 by (simp_all add: T_def)
  have dm: "Hour * (d div Hour) = d - d mod Hour"
    by (simp only: minus_mod_eq_mult_div)
  have m: "0 \<le> d mod Hour" by (simp add: Hour_def)
  have Tk: "T \<le> 24 * k - 1"
  proof (cases "d mod Hour = 0")
    case True
    with dm assms(2) have "Hour * (d div Hour) \<le> Hour * (24 * k - 1)"
      by (simp only: mult.commute [of Hour])
    then have "d div Hour \<le> 24 * k - 1" by (simp add: Hour_def)
    with True show ?thesis by (simp add: T_def)
  next
    case False
    with m have "0 < d mod Hour" by simp
    with dm have "Hour * (d div Hour) < d" by linarith
    also have "d \<le> Hour * (24 * k - 1)" using assms(2) by (simp only: mult.commute [of Hour])
    finally have "d div Hour < 24 * k - 1" by (simp add: Hour_def)
    with False show ?thesis by (simp add: T_def)
  qed
  have D0: "0 \<le> D" using T0 by (simp add: D_def pos_imp_zdiv_nonneg_iff)
  have D1: "D \<le> 106752" using zdiv_mono1 [OF T1, of 24] by (simp add: D_def)
  have "T = 24 * D + T mod 24" by (simp add: D_def)
  moreover have "T mod 24 < 24" by simp
  ultimately have TD: "T \<le> 24 * D + 23" by linarith
  have "D \<le> (24 * k - 1) div 24" using zdiv_mono1 [OF Tk, of 24] by (simp add: D_def)
  also have "(24 * k - 1) div 24 = k - 1" by presburger
  finally have Dk: "D < k" by simp
  have "Hours d \<le> of_int T"
    using Hours_bounds(2) [OF assms(1,3)] by (simp add: T_def)
  also have "\<dots> \<le> of_int (24 * D + 23)" using TD by (simp only: of_int_le_iff)
  finally have "Hours d / 24 \<le> of_int (24 * D + 23) / 24" by (simp add: divide_right_mono)
  also have "\<dots> \<le> of_int (32 * D + 31) * 2 powi (- 5)" using D0 by (simp add: field_simps)
  finally have "float64 (Hours d / 24) \<le> float64 (of_int (32 * D + 31) * 2 powi (- 5))"
    by (rule float64_mono)
  also have "\<dots> = of_int (32 * D + 31) * 2 powi (- 5)"
    using D0 D1 by (intro float64_exact) simp
  also have "\<dots> < of_int (D + 1)" by (simp add: field_simps)
  finally have x: "float64 (Hours d / 24) < of_int (D + 1)" .
  have "(0::rat) \<le> of_int (d div Hour)" using h0 by simp
  with Hours_bounds(1) [OF assms(1,3)] have "0 \<le> Hours d" by linarith
  then have "0 \<le> float64 (Hours d / 24)" by (intro float64_nonneg) simp
  moreover from x have "\<lfloor>float64 (Hours d / 24)\<rfloor> < D + 1" by (simp only: floor_less_iff)
  ultimately have "days_of d < D + 1" by (simp add: days_of_def float_to_int_def)
  with Dk show ?thesis by simp
qed

lemma Sub_range: "minDuration \<le> Sub t u \<and> Sub t u \<le> maxDuration"
  by (simp add: Sub_def minDuration_def maxDuration_def)

lemma keep_days_outside_last_hour:
  assumes "0 < KeepDays policy"
  shows "(Sub now (imageInfo.Created im) \<le> (24 * KeepDays policy - 1) * Hour \<longrightarrow>
            fst (ruleKeepDays policy now im st)) \<and>
         (KeepDays policy * (24 * Hour) \<le> Sub now (imageInfo.Created im) \<longrightarrow>
            ruleKeepDays policy now im st = st)"
proof (intro conjI impI)
  let ?age = "Sub now (imageInfo.Created im)"
  assume a: "?age \<le> (24 * KeepDays policy - 1) * Hour"
  have "days_of ?age < KeepDays policy"
  proof (cases "?age < 0")
    case True
    from days_of_negative [OF this] assms show ?thesis by simp
  next
    case False
    then have "0 \<le> ?age" by simp
    then show ?thesis using a Sub_range [of now "imageInfo.Created im"] by (intro days_of_upper) simp_all
  qed
  then show "fst (ruleKeepDays policy now im st)"
    using assms by (simp add: ruleKeepDays_def Let_def)
next
  let ?age = "Sub now (imageInfo.Created im)"
  assume "KeepDays policy * (24 * Hour) \<le> ?age"
  then have "KeepDays policy \<le> days_of ?age"
    using assms Sub_range [of now "imageInfo.Created im"] by (intro days_of_lower) simp_all
  then show "ruleKeepDays policy now im st = st"
    using assms by (simp add: ruleKeepDays_def Let_def)
qed

section \<open>A dropped tag that shares its digest\<close>




end
